theory Spec2Isabelle
  imports Complex_Main "HOL-Library.Char_ord" "HOL-Library.List_Lexorder"
begin

section \<open>The rhythm game engine of App.tsx\<close>

text \<open>
  The engine is embedded function by function. Conventions:
  \<^item> times (\<open>Date.now()\<close>, track offsets) are integers of milliseconds (\<open>int\<close>);
  \<^item> the other numbers (sizes, pixel coordinates) are exact rationals; the growth quotient
    \<open>elapsed / duration\<close> is the exact quotient, which agrees with the source as long as
    \<open>duration\<close> is not zero (every circle the program creates has duration 1000);
  \<^item> a React state updater passed to \<open>setCells\<close> is applied at once, in call order; the
    refs (\<open>spawnedIndicesRef\<close>, \<open>trackStartTimeRef\<close>, \<open>lastTriggeredKeysRef\<close>) and the
    state \<open>isPlaying\<close> are fields of explicit state records, and every \<open>Date.now()\<close> is a
    parameter;
  \<^item> a JavaScript \<open>Set\<close> iterates in insertion order, so it is a duplicate-free list;
    \<open>has\<close> is membership in its set of elements;
  \<^item> \<open>Array.prototype.sort\<close> is stable, as is \<open>sort_key\<close>;
  \<^item> the circle id, the template string \<open>cellIndex-spawnTime-index\<close>, is the triple of
    its three components (the string determines the triple for the one-digit cell indices
    that pass validation).
\<close>

subsection \<open>Types and constants\<close>

datatype HitRating = Ok | Good | Great | Perfect

datatype HitStatus = Correct | Incorrect | Miss

record Position =
  pos_x :: rat
  pos_y :: rat

type_synonym CircleId = "int \<times> int \<times> nat"

record Circle =
  id_c :: CircleId
  size_c :: rat
  startTime :: int
  duration :: int
  hitStatus :: "HitStatus option"
  hitTime :: "int option"
  hitRating :: "HitRating option"
  hitWindowStart :: int
  hitWindowEnd :: int
  perfectTime :: int
  cellIndex :: int
  spawnPosition :: Position
  targetPosition :: Position
  currentPosition :: Position

record GridCell =
  index :: int
  circles :: "Circle list"

record TrackItem =
  cellIndex_t :: int
  spawnTime :: int

type_synonym Track = "TrackItem list"

definition GRID_SIZE :: int where "GRID_SIZE = 3"
definition CENTER_INDEX :: int where "CENTER_INDEX = 4"
definition GROWTH_DURATION :: int where "GROWTH_DURATION = 1000"
definition HIT_WINDOW_START :: int where "HIT_WINDOW_START = 150"
definition HIT_WINDOW_DURATION :: int where "HIT_WINDOW_DURATION = 200"
definition HIT_FEEDBACK_DURATION :: int where "HIT_FEEDBACK_DURATION = 100"
definition PERFECT_WINDOW :: int where "PERFECT_WINDOW = 25"
definition GREAT_WINDOW :: int where "GREAT_WINDOW = 50"
definition GOOD_WINDOW :: int where "GOOD_WINDOW = 100"

subsection \<open>Rating\<close>

definition calculateHitRating :: "int \<Rightarrow> int \<Rightarrow> HitRating" where
  "calculateHitRating hit perfect =
     (let timeDiff = \<bar>hit - perfect\<bar> in
      if timeDiff \<le> PERFECT_WINDOW then Perfect
      else if timeDiff \<le> GREAT_WINDOW then Great
      else if timeDiff \<le> GOOD_WINDOW then Good
      else Ok)"

subsection \<open>Keys to cells\<close>

definition ARROW_KEY_MAP :: "string \<rightharpoonup> int" where
  "ARROW_KEY_MAP = map_of [(''ArrowUp'', 1), (''ArrowDown'', 7), (''ArrowLeft'', 3), (''ArrowRight'', 5)]"

definition getCellIndexFromKeys :: "string set \<Rightarrow> int option" where
  "getCellIndexFromKeys pressedKeys =
     (let hasUp = (''ArrowUp'' \<in> pressedKeys);
          hasDown = (''ArrowDown'' \<in> pressedKeys);
          hasLeft = (''ArrowLeft'' \<in> pressedKeys);
          hasRight = (''ArrowRight'' \<in> pressedKeys)
      in if hasUp \<and> hasLeft then Some 0
         else if hasUp \<and> hasRight then Some 2
         else if hasDown \<and> hasLeft then Some 6
         else if hasDown \<and> hasRight then Some 8
         else if hasUp then Some 1
         else if hasDown then Some 7
         else if hasLeft then Some 3
         else if hasRight then Some 5
         else None)"

subsection \<open>The session: grid, run flags and fired set\<close>

record Session =
  cells :: "GridCell list"
  isPlaying :: bool
  trackStartTime :: "int option"
  spawnedIndices :: "nat list"

text \<open>What the scheduler reads from the browser: the window size and the measured cell
  centres (\<open>cellRefs\<close>; \<open>None\<close> for a cell without an entry or without a position).\<close>

record Viewport =
  innerWidth :: rat
  innerHeight :: rat
  cellPosition :: "int \<Rightarrow> Position option"

text \<open>The nine cells, indices 0 to 8, without circles.\<close>

definition emptyGrid :: "GridCell list" where
  "emptyGrid = map (\<lambda>i. \<lparr>index = int i, circles = []\<rparr>) [0..<nat (GRID_SIZE * GRID_SIZE)]"

definition initialSession :: Session where
  "initialSession = \<lparr>cells = emptyGrid, isPlaying = False, trackStartTime = None, spawnedIndices = []\<rparr>"

definition startTrack :: "int \<Rightarrow> Session \<Rightarrow> Session" where
  "startTrack now s = \<lparr>cells = emptyGrid, isPlaying = True, trackStartTime = Some now, spawnedIndices = []\<rparr>"

subsection \<open>Scheduler\<close>

text \<open>The circle literal that the scheduler builds for a fired event with a valid cell.\<close>

definition newCircle :: "Viewport \<Rightarrow> int \<Rightarrow> TrackItem \<Rightarrow> nat \<Rightarrow> Circle" where
  "newCircle vp now item idx =
     (let spawnPos = \<lparr>pos_x = innerWidth vp / 2, pos_y = 0\<rparr>;
          targetPos = (case cellPosition vp (cellIndex_t item) of
                         Some p \<Rightarrow> p
                       | None \<Rightarrow> \<lparr>pos_x = innerWidth vp / 2, pos_y = innerHeight vp / 2\<rparr>)
      in \<lparr>id_c = (cellIndex_t item, spawnTime item, idx),
          size_c = 0,
          startTime = now,
          duration = GROWTH_DURATION,
          hitStatus = None,
          hitTime = None,
          hitRating = None,
          hitWindowStart = now + GROWTH_DURATION - HIT_WINDOW_START,
          hitWindowEnd = now + GROWTH_DURATION + HIT_WINDOW_DURATION,
          perfectTime = now + GROWTH_DURATION,
          cellIndex = cellIndex_t item,
          spawnPosition = spawnPos,
          targetPosition = targetPos,
          currentPosition = spawnPos\<rparr>)"

text \<open>The body of the \<open>forEach\<close> callback, for one track item and its index.\<close>

definition spawnItem :: "Viewport \<Rightarrow> int \<Rightarrow> int \<Rightarrow> nat \<times> TrackItem \<Rightarrow> Session \<Rightarrow> Session" where
  "spawnItem vp now elapsed p s =
     (case p of (idx, item) \<Rightarrow>
        if idx \<in> set (spawnedIndices s) then s
        else if elapsed \<ge> spawnTime item - 10 then
          (let s1 = s\<lparr>spawnedIndices := spawnedIndices s @ [idx]\<rparr>
           in if cellIndex_t item = CENTER_INDEX \<or> cellIndex_t item < 0
                 \<or> cellIndex_t item \<ge> GRID_SIZE * GRID_SIZE
              then s1
              else s1\<lparr>cells := map (\<lambda>cell. if index cell = cellIndex_t item
                                            then cell\<lparr>circles := circles cell @ [newCircle vp now item idx]\<rparr>
                                            else cell) (cells s1)\<rparr>)
        else s)"

definition spawnFromTrack :: "Viewport \<Rightarrow> Track \<Rightarrow> int \<Rightarrow> Session \<Rightarrow> Session" where
  "spawnFromTrack vp tr now s =
     (if \<not> isPlaying s then s
      else case trackStartTime s of
             None \<Rightarrow> s
           | Some t0 \<Rightarrow> fold (spawnItem vp now (now - t0)) (enumerate 0 tr) s)"

subsection \<open>Target lifecycle\<close>

text \<open>\<open>Math.min(elapsed / circle.duration, 1)\<close>, which the frame calls \<open>progress\<close> and the
  press \<open>currentSize\<close>.\<close>

definition currentSize :: "int \<Rightarrow> Circle \<Rightarrow> rat" where
  "currentSize now c = min (of_int (now - startTime c) / of_int (duration c)) 1"

text \<open>The \<open>map\<close> callback of a frame, for one circle.\<close>

definition advanceCircle :: "int \<Rightarrow> Circle \<Rightarrow> Circle" where
  "advanceCircle now c =
     (if hitStatus c \<noteq> None then c\<lparr>currentPosition := targetPosition c\<rparr>
      else let missBuffer = 50 in
        if now > hitWindowEnd c + missBuffer then c\<lparr>hitStatus := Some Miss, hitTime := Some now\<rparr>
        else let progress = currentSize now c;
                 pos = \<lparr>pos_x = pos_x (spawnPosition c)
                              + (pos_x (targetPosition c) - pos_x (spawnPosition c)) * progress,
                        pos_y = pos_y (spawnPosition c)
                              + (pos_y (targetPosition c) - pos_y (spawnPosition c)) * progress\<rparr>
             in c\<lparr>size_c := progress, currentPosition := pos\<rparr>)"

text \<open>The filter of a frame; the bound 1.1 is the rational \<open>11 / 10\<close>.\<close>

definition keepCircle :: "int \<Rightarrow> Circle \<Rightarrow> bool" where
  "keepCircle now c =
     (case hitTime c of
        Some h \<Rightarrow> now - h < HIT_FEEDBACK_DURATION
      | None \<Rightarrow> size_c c \<le> 11 / 10)"

text \<open>What a frame does to one cell: advance every circle, then filter.\<close>

definition advanceCell :: "int \<Rightarrow> GridCell \<Rightarrow> GridCell" where
  "advanceCell now cell = cell\<lparr>circles := filter (keepCircle now) (map (advanceCircle now) (circles cell))\<rparr>"

text \<open>One animation frame: the scheduler reads the clock, then the lifecycle reads it again.\<close>

definition animate :: "Viewport \<Rightarrow> Track \<Rightarrow> int \<Rightarrow> int \<Rightarrow> Session \<Rightarrow> Session" where
  "animate vp tr nowSpawn now s =
     (let s1 = spawnFromTrack vp tr nowSpawn s
      in s1\<lparr>cells := map (advanceCell now) (cells s1)\<rparr>)"

subsection \<open>Judgment\<close>

text \<open>The object spread that marks a circle as hit, from the winner and its current size.\<close>

definition hitUpdate :: "int \<Rightarrow> Circle \<Rightarrow> rat \<Rightarrow> Circle \<Rightarrow> Circle" where
  "hitUpdate now hitCircle hitSize c =
     c\<lparr>hitStatus := Some Correct,
       hitTime := Some now,
       hitRating := Some (calculateHitRating now (perfectTime hitCircle)),
       size_c := hitSize,
       currentPosition := targetPosition hitCircle\<rparr>"

text \<open>The callback that \<open>handleCellPress\<close> maps over the cells. The comparator
  \<open>b.currentSize - a.currentSize\<close> sorts by decreasing size, that is by increasing negated
  size.\<close>

definition pressCell :: "int \<Rightarrow> int \<Rightarrow> GridCell \<Rightarrow> GridCell" where
  "pressCell k now cell =
     (if index cell \<noteq> k then cell
      else let unhitCircles = filter (\<lambda>c. if hitStatus c \<noteq> None then False
                                          else now \<le> hitWindowEnd c) (circles cell)
        in if length unhitCircles = 0 then cell
        else let circlesWithCurrentSize = map (\<lambda>c. (c, currentSize now c)) unhitCircles;
                 circlesInWindow = filter (\<lambda>p. now \<ge> hitWindowStart (fst p) \<and> now \<le> hitWindowEnd (fst p))
                                     circlesWithCurrentSize
          in if length circlesInWindow > 0
             then (case sort_key (\<lambda>p. - snd p) circlesInWindow of
                     [] \<Rightarrow> cell
                   | hit # _ \<Rightarrow>
                       cell\<lparr>circles := map (\<lambda>c. if id_c c = id_c (fst hit)
                                                then hitUpdate now (fst hit) (snd hit) c
                                                else c) (circles cell)\<rparr>)
             else cell)"

definition handleCellPress :: "int \<Rightarrow> int \<Rightarrow> Session \<Rightarrow> Session" where
  "handleCellPress k now s = s\<lparr>cells := map (pressCell k now) (cells s)\<rparr>"

subsection \<open>Completion check\<close>

text \<open>The three assignments that end a run.\<close>

definition stopSession :: "Session \<Rightarrow> Session" where
  "stopSession s = s\<lparr>isPlaying := False, trackStartTime := None, spawnedIndices := []\<rparr>"

text \<open>The interval callback; the interval exists only while the run is playing and started.\<close>

definition checkTrackFinished :: "Track \<Rightarrow> int \<Rightarrow> Session \<Rightarrow> Session" where
  "checkTrackFinished tr now s =
     (if \<not> isPlaying s then s
      else case trackStartTime s of
             None \<Rightarrow> s
           | Some t0 \<Rightarrow>
               if length tr = 0 then stopSession s
               else let lastSpawnTime = Max (set (map spawnTime tr));
                        trackEndTime = lastSpawnTime + GROWTH_DURATION + HIT_WINDOW_DURATION
                                         + HIT_FEEDBACK_DURATION
                    in if now - t0 > trackEndTime then stopSession s else s)"

subsection \<open>Keyboard input\<close>

text \<open>\<open>pressedKeys\<close> and \<open>lastTriggeredKeysRef\<close> are Sets of key names, in insertion order.\<close>

record KeyState =
  pressedKeys :: "string list"
  lastTriggeredKeys :: "string list"

definition initialKeys :: KeyState where
  "initialKeys = \<lparr>pressedKeys = [], lastTriggeredKeys = []\<rparr>"

definition setAdd :: "string \<Rightarrow> string list \<Rightarrow> string list" where
  "setAdd k ks = (if k \<in> set ks then ks else ks @ [k])"

definition setDelete :: "string \<Rightarrow> string list \<Rightarrow> string list" where
  "setDelete k ks = filter (\<lambda>x. x \<noteq> k) ks"

fun joinComma :: "string list \<Rightarrow> string" where
  "joinComma [] = []"
| "joinComma [x] = x"
| "joinComma (x # y # ys) = x @ '','' @ joinComma (y # ys)"

text \<open>\<open>Array.from(keys).sort().join(',')\<close>: the default sort orders strings by code unit.\<close>

definition keySignature :: "string list \<Rightarrow> string" where
  "keySignature ks = joinComma (sort ks)"

text \<open>The handlers return the new key state; \<open>handleKeyDown\<close> also returns the cell it
  passes to \<open>handleCellPress\<close>, if it calls it.\<close>

definition handleKeyDown :: "string \<Rightarrow> KeyState \<Rightarrow> KeyState \<times> int option" where
  "handleKeyDown key st =
     (if ARROW_KEY_MAP key = None then (st, None)
      else let pk = setAdd key (pressedKeys st)
        in case getCellIndexFromKeys (set pk) of
             None \<Rightarrow> (st\<lparr>pressedKeys := pk\<rparr>, None)
           | Some targetIndex \<Rightarrow>
               (let currentKeys = keySignature pk;
                    lastKeys = keySignature (lastTriggeredKeys st)
                in if currentKeys \<noteq> lastKeys
                   then (\<lparr>pressedKeys = pk, lastTriggeredKeys = pk\<rparr>, Some targetIndex)
                   else (st\<lparr>pressedKeys := pk\<rparr>, None)))"

definition handleKeyUp :: "string \<Rightarrow> KeyState \<Rightarrow> KeyState" where
  "handleKeyUp key st =
     (if ARROW_KEY_MAP key = None then st
      else let pk = setDelete key (pressedKeys st)
        in if length pk = 0 then \<lparr>pressedKeys = pk, lastTriggeredKeys = []\<rparr>
           else let currentKeys = keySignature pk;
                    lastKeys = keySignature (lastTriggeredKeys st)
                in if currentKeys \<noteq> lastKeys
                   then \<lparr>pressedKeys = pk, lastTriggeredKeys = pk\<rparr>
                   else st\<lparr>pressedKeys := pk\<rparr>)"

datatype KeyEvent = KeyDown string | KeyUp string

text \<open>A sequence of keyboard events, with the presses it fires, in order.\<close>

fun runKeys :: "KeyEvent list \<Rightarrow> KeyState \<Rightarrow> KeyState \<times> int list" where
  "runKeys [] st = (st, [])"
| "runKeys (KeyDown k # es) st =
     (case handleKeyDown k st of
        (st', fired) \<Rightarrow>
          (case runKeys es st' of
             (st'', presses) \<Rightarrow> (st'', (case fired of None \<Rightarrow> [] | Some c \<Rightarrow> [c]) @ presses)))"
| "runKeys (KeyUp k # es) st = runKeys es (handleKeyUp k st)"

subsection \<open>Runs\<close>

text \<open>The states the program can be in, with the latest clock reading: the clock never
  goes back. A press comes from a tap or from the keyboard, for any cell index.\<close>

inductive reachable :: "Track \<Rightarrow> Session \<Rightarrow> int \<Rightarrow> bool" for tr :: Track where
  r_init: "reachable tr initialSession t"
| r_start: "reachable tr s t \<Longrightarrow> t \<le> now \<Longrightarrow> reachable tr (startTrack now s) now"
| r_tick: "reachable tr s t \<Longrightarrow> t \<le> nowSpawn \<Longrightarrow> nowSpawn \<le> now
           \<Longrightarrow> reachable tr (animate vp tr nowSpawn now s) now"
| r_press: "reachable tr s t \<Longrightarrow> t \<le> now \<Longrightarrow> reachable tr (handleCellPress k now s) now"
| r_check: "reachable tr s t \<Longrightarrow> t \<le> now \<Longrightarrow> reachable tr (checkTrackFinished tr now s) now"

subsection \<open>Vocabulary of the properties\<close>

text \<open>A circle that a press at \<open>now\<close> may resolve: unresolved and inside its hit window.\<close>

definition eligible :: "int \<Rightarrow> Circle \<Rightarrow> bool" where
  "eligible now c \<longleftrightarrow> hitStatus c = None \<and> hitWindowStart c \<le> now \<and> now \<le> hitWindowEnd c"

text \<open>The data-model invariant of a circle at clock reading \<open>t\<close>.\<close>

definition circle_ok :: "int \<Rightarrow> Circle \<Rightarrow> bool" where
  "circle_ok t c \<longleftrightarrow>
     duration c = GROWTH_DURATION \<and> startTime c \<le> t
     \<and> 0 \<le> size_c c \<and> size_c c \<le> 1
     \<and> (hitStatus c = None \<longleftrightarrow> hitTime c = None)
     \<and> perfectTime c = startTime c + GROWTH_DURATION
     \<and> hitWindowStart c = perfectTime c - HIT_WINDOW_START
     \<and> hitWindowEnd c = perfectTime c + HIT_WINDOW_DURATION"

text \<open>The track index a circle was spawned from, the last component of its id.\<close>

definition eventIndex :: "Circle \<Rightarrow> nat" where
  "eventIndex c = snd (snd (id_c c))"

text \<open>The invariant of the session: the cells have distinct indices, the circles of a cell
  have distinct ids and are well formed, and while a run is started every circle comes from
  a fired track index.\<close>

definition session_ok :: "Session \<Rightarrow> int \<Rightarrow> bool" where
  "session_ok s t \<longleftrightarrow>
     distinct (map index (cells s))
     \<and> (\<forall>cell\<in>set (cells s).
           distinct (map id_c (circles cell))
           \<and> (\<forall>c\<in>set (circles cell).
                 circle_ok t c
                 \<and> (trackStartTime s \<noteq> None \<longrightarrow> eventIndex c \<in> set (spawnedIndices s))))"

text \<open>The scheduler only appends: cell by cell, same index, old circles then new ones.\<close>

definition appended :: "GridCell list \<Rightarrow> GridCell list \<Rightarrow> bool" where
  "appended cs cs' \<longleftrightarrow>
     list_all2 (\<lambda>a b. index b = index a \<and> (\<exists>new. circles b = circles a @ new)) cs cs'"

text \<open>The cell index of a track item fails the scheduler's validation.\<close>

definition invalidCell :: "TrackItem \<Rightarrow> bool" where
  "invalidCell item \<longleftrightarrow>
     cellIndex_t item = CENTER_INDEX \<or> cellIndex_t item < 0 \<or> cellIndex_t item \<ge> GRID_SIZE * GRID_SIZE"

subsection \<open>Runs of frames and presses\<close>

text \<open>What happens during one run, between \<open>startTrack\<close> and the end of the track: animation
  frames (each reads the clock twice) and presses.\<close>

datatype RunEvent = Frame Viewport int int | Press int int

fun runStep :: "Track \<Rightarrow> RunEvent \<Rightarrow> Session \<Rightarrow> Session" where
  "runStep tr (Frame vp nowSpawn now) s = animate vp tr nowSpawn now s"
| "runStep tr (Press k now) s = handleCellPress k now s"

definition run :: "Track \<Rightarrow> RunEvent list \<Rightarrow> Session \<Rightarrow> Session" where
  "run tr es s = fold (runStep tr) es s"

text \<open>The number of circles in the grid that were spawned from track index \<open>i\<close>.\<close>

definition targetsOf :: "nat \<Rightarrow> Session \<Rightarrow> nat" where
  "targetsOf i s = length (filter (\<lambda>c. eventIndex c = i) (concat (map circles (cells s))))"

text \<open>The number of targets a step creates for track index \<open>i\<close>: the increase of
  \<open>targetsOf i\<close> over the part of the step that precedes eviction.\<close>

fun createdAt :: "Track \<Rightarrow> nat \<Rightarrow> RunEvent \<Rightarrow> Session \<Rightarrow> nat" where
  "createdAt tr i (Frame vp nowSpawn now) s = targetsOf i (spawnFromTrack vp tr nowSpawn s) - targetsOf i s"
| "createdAt tr i (Press k now) s = targetsOf i (handleCellPress k now s) - targetsOf i s"

fun created :: "Track \<Rightarrow> nat \<Rightarrow> RunEvent list \<Rightarrow> Session \<Rightarrow> nat" where
  "created tr i [] s = 0"
| "created tr i (e # es) s = createdAt tr i e s + created tr i es (runStep tr e s)"

text \<open>The track offsets of the fired events, in the order in which they were fired.\<close>

definition firedOffsets :: "Track \<Rightarrow> Session \<Rightarrow> int list" where
  "firedOffsets tr s = map (\<lambda>i. spawnTime (tr ! i)) (spawnedIndices s)"

text \<open>No event of the track that is still unfired has a smaller offset than a fired one.\<close>

definition fired_first :: "Track \<Rightarrow> nat list \<Rightarrow> bool" where
  "fired_first tr fs \<longleftrightarrow>
     (\<forall>j\<in>set fs. \<forall>k<length tr. k \<notin> set fs \<longrightarrow> spawnTime (tr ! j) \<le> spawnTime (tr ! k))"

text \<open>The order invariant of the fired list: offsets in firing order are non-decreasing,
  and no unfired event of the track precedes a fired one.\<close>

definition fired_in_order :: "Track \<Rightarrow> nat list \<Rightarrow> bool" where
  "fired_in_order tr fs \<longleftrightarrow>
     sorted (map (\<lambda>i. spawnTime (tr ! i)) fs)
     \<and> (\<forall>j\<in>set fs. \<forall>k<length tr. k \<notin> set fs \<longrightarrow> spawnTime (tr ! j) \<le> spawnTime (tr ! k))"

text \<open>The recorded signature agrees with the signature of the held keys.\<close>

definition keys_recorded :: "KeyState \<Rightarrow> bool" where
  "keys_recorded st \<longleftrightarrow> keySignature (lastTriggeredKeys st) = keySignature (pressedKeys st)"

subsection \<open>Fixtures of the worked scenarios\<close>

text \<open>A window of 800 by 600 pixels in which no cell has been measured yet.\<close>

definition plainViewport :: Viewport where
  "plainViewport = \<lparr>innerWidth = 800, innerHeight = 600, cellPosition = (\<lambda>_. None)\<rparr>"

text \<open>The track of the end-to-end scenario: one event, for cell 3, at offset 0.\<close>

definition singleEventTrack :: Track where
  "singleEventTrack = [\<lparr>cellIndex_t = 3, spawnTime = 0\<rparr>]"

text \<open>The run started at time 0, after its first frame at time 0.\<close>

definition firstFrame :: Session where
  "firstFrame = animate plainViewport singleEventTrack 0 0 (startTrack 0 initialSession)"

text \<open>The single-event run after a press on cell 3 at time 1000.\<close>

definition afterHit :: Session where
  "afterHit = handleCellPress 3 1000 firstFrame"

text \<open>The single-event run with no press, after a second frame at time 1400.\<close>

definition missedFrame :: Session where
  "missedFrame = animate plainViewport singleEventTrack 1400 1400 firstFrame"

text \<open>Two events for cell 3, 300 ms apart, and the run after frames at times 0 and 300:
  both circles are alive, and from 1150 to 1200 both are inside their hit windows.\<close>

definition overlapTrack :: Track where
  "overlapTrack = [\<lparr>cellIndex_t = 3, spawnTime = 0\<rparr>, \<lparr>cellIndex_t = 3, spawnTime = 300\<rparr>]"

definition overlapFrames :: Session where
  "overlapFrames = animate plainViewport overlapTrack 300 300
                     (animate plainViewport overlapTrack 0 0 (startTrack 0 initialSession))"

text \<open>A track that its producer did not sort.\<close>

definition unsortedTrack :: Track where
  "unsortedTrack = [\<lparr>cellIndex_t = 3, spawnTime = 5\<rparr>, \<lparr>cellIndex_t = 3, spawnTime = 0\<rparr>]"

text \<open>The single-event run with no press after a frame at 1260, which marks the miss, and
  the completion check at 1301, which stops the run while the missed circle is still shown.\<close>

definition stoppedRun :: Session where
  "stoppedRun = checkTrackFinished singleEventTrack 1301
                  (animate plainViewport singleEventTrack 1260 1260 firstFrame)"

text \<open>A track whose only event names the centre cell.\<close>

definition centreTrack :: Track where
  "centreTrack = [\<lparr>cellIndex_t = 4, spawnTime = 0\<rparr>]"

section \<open>Properties\<close>

subsection \<open>Input resolver: the key table\<close>

theorem getCellIndexFromKeys_opposite_pairs_counterexample:
  "getCellIndexFromKeys {''ArrowUp'', ''ArrowDown''} = Some 1
   \<and> getCellIndexFromKeys {''ArrowLeft'', ''ArrowRight''} = Some 3"
  by (simp add: getCellIndexFromKeys_def)

text \<open>
  C5 (amended). The mapping of held arrow keys to cells, for each of the sixteen subsets:
  a lone direction gives 1, 7, 3, 5 (Up, Down, Left, Right); a set holding a corner pair
  gives the first of the corners 0, 2, 6, 8 it contains, before any lone direction; the
  opposite pairs fall through to the lone directions, Up and Down giving 1, Left and Right
  giving 3; only the empty set selects no cell.
\<close>

theorem getCellIndexFromKeys_table:
  "getCellIndexFromKeys {} = None
   \<and> getCellIndexFromKeys {''ArrowUp''} = Some 1
   \<and> getCellIndexFromKeys {''ArrowDown''} = Some 7
   \<and> getCellIndexFromKeys {''ArrowLeft''} = Some 3
   \<and> getCellIndexFromKeys {''ArrowRight''} = Some 5
   \<and> getCellIndexFromKeys {''ArrowUp'', ''ArrowLeft''} = Some 0
   \<and> getCellIndexFromKeys {''ArrowUp'', ''ArrowRight''} = Some 2
   \<and> getCellIndexFromKeys {''ArrowDown'', ''ArrowLeft''} = Some 6
   \<and> getCellIndexFromKeys {''ArrowDown'', ''ArrowRight''} = Some 8
   \<and> getCellIndexFromKeys {''ArrowUp'', ''ArrowDown''} = Some 1
   \<and> getCellIndexFromKeys {''ArrowLeft'', ''ArrowRight''} = Some 3
   \<and> getCellIndexFromKeys {''ArrowUp'', ''ArrowDown'', ''ArrowLeft''} = Some 0
   \<and> getCellIndexFromKeys {''ArrowUp'', ''ArrowDown'', ''ArrowRight''} = Some 2
   \<and> getCellIndexFromKeys {''ArrowUp'', ''ArrowLeft'', ''ArrowRight''} = Some 0
   \<and> getCellIndexFromKeys {''ArrowDown'', ''ArrowLeft'', ''ArrowRight''} = Some 6
   \<and> getCellIndexFromKeys {''ArrowUp'', ''ArrowDown'', ''ArrowLeft'', ''ArrowRight''} = Some 0"
  by (simp add: getCellIndexFromKeys_def)

subsection \<open>Judgment: which circle a press resolves\<close>

lemma sort_key_head:
  fixes f :: "'a \<Rightarrow> 'b::linorder"
  shows "xs \<noteq> [] \<Longrightarrow> \<exists>pre w post rest. xs = pre @ w # post \<and> sort_key f xs = w # rest
     \<and> (\<forall>x\<in>set pre. f w < f x) \<and> (\<forall>x\<in>set post. f w \<le> f x)"
proof (induction xs)
  case Nil
  then show ?case by simp
next
  case (Cons a xs)
  show ?case
  proof (cases "xs = []")
    case True
    then show ?thesis by (intro exI[of _ "[]"] exI[of _ a]) simp
  next
    case False
    with Cons.IH obtain pre w post rest where
      xs: "xs = pre @ w # post" and sk: "sort_key f xs = w # rest"
      and lo: "\<forall>x\<in>set pre. f w < f x" and hi: "\<forall>x\<in>set post. f w \<le> f x"
      by blast
    show ?thesis
    proof (cases "f a \<le> f w")
      case True
      have "\<forall>x\<in>set xs. f a \<le> f x"
        using True lo hi xs by (auto intro: order_trans less_imp_le)
      moreover have "sort_key f (a # xs) = a # w # rest"
        using True sk by simp
      ultimately show ?thesis
        by (intro exI[of _ "[]"] exI[of _ a] exI[of _ xs] exI[of _ "w # rest"]) simp
    next
      case False
      then have "sort_key f (a # xs) = w # insort_key f a rest"
        using sk by simp
      moreover have "\<forall>x\<in>set (a # pre). f w < f x"
        using False lo by auto
      ultimately show ?thesis
        using xs hi
        by (intro exI[of _ "a # pre"] exI[of _ w] exI[of _ post] exI[of _ "insort_key f a rest"]) simp
    qed
  qed
qed

lemma filter_eq_append_ConsD:
  "filter P xs = ys @ z # zs \<Longrightarrow>
     \<exists>us vs. xs = us @ z # vs \<and> filter P us = ys \<and> filter P vs = zs \<and> P z"
proof (induction xs arbitrary: ys)
  case Nil
  then show ?case by simp
next
  case (Cons a xs)
  show ?case
  proof (cases "P a")
    case False
    with Cons.prems have "filter P xs = ys @ z # zs" by simp
    from Cons.IH[OF this] obtain us vs where
      "xs = us @ z # vs" "filter P us = ys" "filter P vs = zs" "P z" by blast
    with False show ?thesis
      by (intro exI[of _ "a # us"] exI[of _ vs]) simp
  next
    case True
    show ?thesis
    proof (cases ys)
      case Nil
      with True Cons.prems have "a = z" "filter P xs = zs" by simp_all
      with True Nil show ?thesis
        by (intro exI[of _ "[]"] exI[of _ xs]) simp
    next
      case (Cons y ys')
      with True Cons.prems have a: "a = y" and "filter P xs = ys' @ z # zs" by simp_all
      from Cons.IH[OF this(2)] obtain us vs where
        "xs = us @ z # vs" "filter P us = ys'" "filter P vs = zs" "P z" by blast
      with True a Cons show ?thesis
        by (intro exI[of _ "a # us"] exI[of _ vs]) simp
    qed
  qed
qed

lemma pressCell_other: "index cell \<noteq> k \<Longrightarrow> pressCell k now cell = cell"
  by (simp add: pressCell_def)

lemma pressCell_window:
  "filter (\<lambda>p. now \<ge> hitWindowStart (fst p) \<and> now \<le> hitWindowEnd (fst p))
     (map (\<lambda>c. (c, currentSize now c))
        (filter (\<lambda>c. if hitStatus c \<noteq> None then False else now \<le> hitWindowEnd c) cs))
   = map (\<lambda>c. (c, currentSize now c)) (filter (eligible now) cs)"
  by (induction cs) (auto simp: eligible_def)

lemma pressCell_noop:
  assumes "filter (eligible now) (circles cell) = []"
  shows "pressCell k now cell = cell"
  using assms unfolding pressCell_def Let_def pressCell_window by simp

lemma pressCell_hit:
  assumes k: "index cell = k"
    and el: "filter (eligible now) (circles cell) \<noteq> []"
    and dist: "distinct (map id_c (circles cell))"
  shows "\<exists>pre w post. circles cell = pre @ w # post \<and> eligible now w
     \<and> (\<forall>x\<in>set pre. eligible now x \<longrightarrow> currentSize now x < currentSize now w)
     \<and> (\<forall>x\<in>set post. eligible now x \<longrightarrow> currentSize now x \<le> currentSize now w)
     \<and> pressCell k now cell = cell\<lparr>circles := pre @ hitUpdate now w (currentSize now w) w # post\<rparr>"
proof -
  let ?g = "\<lambda>c. (c, currentSize now c)"
  let ?E = "filter (eligible now) (circles cell)"
  let ?f = "\<lambda>p::Circle \<times> rat. - snd p"
  have "map ?g ?E \<noteq> []" using el by simp
  from sort_key_head[OF this, of ?f] obtain pre' w' post' rest where
    dec': "map ?g ?E = pre' @ w' # post'" and sk: "sort_key ?f (map ?g ?E) = w' # rest"
    and lo': "\<forall>x\<in>set pre'. ?f w' < ?f x" and hi': "\<forall>x\<in>set post'. ?f w' \<le> ?f x"
    by blast
  from dec' obtain preE w postE where
    decE: "?E = preE @ w # postE" and pre': "pre' = map ?g preE" and w': "w' = ?g w"
    and post': "post' = map ?g postE"
    by (auto simp: map_eq_append_conv map_eq_Cons_conv)
  from filter_eq_append_ConsD[OF decE] obtain pre post where
    dec: "circles cell = pre @ w # post" and fpre: "filter (eligible now) pre = preE"
    and fpost: "filter (eligible now) post = postE" and ew: "eligible now w"
    by blast
  have lo: "\<forall>x\<in>set pre. eligible now x \<longrightarrow> currentSize now x < currentSize now w"
  proof (intro ballI impI)
    fix x assume "x \<in> set pre" "eligible now x"
    then have "?g x \<in> set pre'" using fpre pre' by auto
    with lo' w' show "currentSize now x < currentSize now w" by auto
  qed
  have hi: "\<forall>x\<in>set post. eligible now x \<longrightarrow> currentSize now x \<le> currentSize now w"
  proof (intro ballI impI)
    fix x assume "x \<in> set post" "eligible now x"
    then have "?g x \<in> set post'" using fpost post' by auto
    with hi' w' show "currentSize now x \<le> currentSize now w" by auto
  qed
  have ids: "\<forall>x\<in>set pre \<union> set post. id_c x \<noteq> id_c w"
    using dist dec by (auto simp: image_iff)
  have upd: "map (\<lambda>c. if id_c c = id_c w then hitUpdate now w (currentSize now w) c else c) (circles cell)
      = pre @ hitUpdate now w (currentSize now w) w # post"
    using ids unfolding dec by (simp add: map_idI)
  have unhit_ne: "filter (\<lambda>c. if hitStatus c \<noteq> None then False else now \<le> hitWindowEnd c) (circles cell) \<noteq> []"
  proof
    assume "filter (\<lambda>c. if hitStatus c \<noteq> None then False else now \<le> hitWindowEnd c) (circles cell) = []"
    then have "\<forall>c\<in>set (circles cell). \<not> eligible now c"
      by (auto simp: filter_empty_conv eligible_def)
    with el show False by (simp add: filter_empty_conv)
  qed
  have "pressCell k now cell = cell\<lparr>circles := pre @ hitUpdate now w (currentSize now w) w # post\<rparr>"
    using k unhit_ne el unfolding pressCell_def Let_def pressCell_window
    by (simp add: sk w' upd cong: if_cong)
  with dec ew lo hi show ?thesis by blast
qed

subsection \<open>The session invariant holds in every reachable state\<close>

lemma circle_ok_mono: "circle_ok t c \<Longrightarrow> t \<le> t' \<Longrightarrow> circle_ok t' c"
  by (auto simp: circle_ok_def)

lemma session_ok_mono: "session_ok s t \<Longrightarrow> t \<le> t' \<Longrightarrow> session_ok s t'"
  unfolding session_ok_def by (blast intro: circle_ok_mono)

lemma currentSize_le_1: "currentSize now c \<le> 1"
  by (simp add: currentSize_def)

lemma currentSize_nonneg:
  "duration c = GROWTH_DURATION \<Longrightarrow> startTime c \<le> now \<Longrightarrow> 0 \<le> currentSize now c"
  by (simp add: currentSize_def GROWTH_DURATION_def)

lemma emptyGrid_index: "map index emptyGrid = map int [0..<9]"
  by (simp add: emptyGrid_def GRID_SIZE_def comp_def)

lemma emptyGrid_circles: "cell \<in> set emptyGrid \<Longrightarrow> circles cell = []"
  by (auto simp: emptyGrid_def)

lemma session_ok_emptyGrid:
  "cells s = emptyGrid \<Longrightarrow> session_ok s t"
  unfolding session_ok_def
  by (auto simp: emptyGrid_index emptyGrid_circles distinct_map inj_on_def)

lemma circle_ok_newCircle: "circle_ok now (newCircle vp now item idx)"
  by (simp add: circle_ok_def newCircle_def Let_def)

lemma eventIndex_newCircle [simp]: "eventIndex (newCircle vp now item idx) = idx"
  by (simp add: eventIndex_def newCircle_def Let_def)

lemma session_ok_spawnItem:
  assumes ok: "session_ok s now" and st: "trackStartTime s \<noteq> None"
  shows "session_ok (spawnItem vp now e p s) now"
proof -
  obtain idx item where p: "p = (idx, item)" by (cases p)
  show ?thesis
  proof (cases "idx \<in> set (spawnedIndices s) \<or> \<not> e \<ge> spawnTime item - 10")
    case True
    then show ?thesis using ok p by (auto simp: spawnItem_def)
  next
    case False
    then have fresh: "idx \<notin> set (spawnedIndices s)" and due: "e \<ge> spawnTime item - 10" by auto
    have new_id: "\<forall>cell\<in>set (cells s). \<forall>c\<in>set (circles cell). id_c c \<noteq> id_c (newCircle vp now item idx)"
    proof (intro ballI notI)
      fix cell c assume "cell \<in> set (cells s)" "c \<in> set (circles cell)"
        and eq: "id_c c = id_c (newCircle vp now item idx)"
      then have "eventIndex c \<in> set (spawnedIndices s)" using ok st by (auto simp: session_ok_def)
      moreover have "eventIndex c = idx" using eq eventIndex_newCircle[of vp now item idx]
        by (simp add: eventIndex_def)
      ultimately show False using fresh by simp
    qed
    define nc where "nc = newCircle vp now item idx"
    define f where "f = (\<lambda>cell::GridCell. if index cell = cellIndex_t item
                                  then cell\<lparr>circles := circles cell @ [nc]\<rparr> else cell)"
    define s1 where "s1 = s\<lparr>spawnedIndices := spawnedIndices s @ [idx]\<rparr>"
    have ok1: "session_ok s1 now"
      using ok unfolding session_ok_def s1_def by auto
    have res: "spawnItem vp now e p s = s1 \<or> spawnItem vp now e p s = s1\<lparr>cells := map f (cells s)\<rparr>"
      using fresh due unfolding p spawnItem_def Let_def s1_def f_def nc_def by simp
    have idx_f: "index (f cell) = index cell" for cell by (simp add: f_def)
    have cell_f: "distinct (map id_c (circles (f cell)))
        \<and> (\<forall>c\<in>set (circles (f cell)). circle_ok now c
              \<and> (trackStartTime s \<noteq> None \<longrightarrow> eventIndex c \<in> set (spawnedIndices s @ [idx])))"
      if "cell \<in> set (cells s)" for cell
    proof -
      from that ok have d: "distinct (map id_c (circles cell))"
        and c: "\<forall>c\<in>set (circles cell). circle_ok now c \<and> eventIndex c \<in> set (spawnedIndices s)"
        using st by (auto simp: session_ok_def)
      have "id_c nc \<notin> set (map id_c (circles cell))"
      proof
        assume "id_c nc \<in> set (map id_c (circles cell))"
        then obtain c where "c \<in> set (circles cell)" "id_c c = id_c nc" by auto
        with that new_id show False unfolding nc_def by blast
      qed
      with d c show ?thesis
        by (auto simp: f_def nc_def circle_ok_newCircle)
    qed
    have "session_ok (s1\<lparr>cells := map f (cells s)\<rparr>) now"
      unfolding session_ok_def using ok cell_f
      by (auto simp: s1_def comp_def idx_f session_ok_def)
    with ok1 res show ?thesis by auto
  qed
qed

lemma spawnItem_trackStartTime [simp]: "trackStartTime (spawnItem vp now e p s) = trackStartTime s"
  by (cases p) (simp add: spawnItem_def Let_def)

lemma session_ok_fold_spawnItem:
  "session_ok s now \<Longrightarrow> trackStartTime s \<noteq> None \<Longrightarrow> session_ok (fold (spawnItem vp now e) ps s) now"
  by (induction ps arbitrary: s) (simp_all add: session_ok_spawnItem)

lemma session_ok_spawnFromTrack:
  "session_ok s now \<Longrightarrow> session_ok (spawnFromTrack vp tr now s) now"
  by (auto simp: spawnFromTrack_def session_ok_fold_spawnItem split: option.splits)

lemma id_advanceCircle [simp]: "id_c (advanceCircle now c) = id_c c"
  by (simp add: advanceCircle_def Let_def)

lemma circle_ok_advanceCircle: "circle_ok now c \<Longrightarrow> circle_ok now (advanceCircle now c)"
  by (auto simp: circle_ok_def advanceCircle_def Let_def currentSize_le_1 currentSize_nonneg)

lemma eventIndex_advanceCircle [simp]: "eventIndex (advanceCircle now c) = eventIndex c"
  by (simp add: eventIndex_def)

lemma cell_ok_advanceCell:
  assumes "distinct (map id_c (circles cell))"
    and "\<forall>c\<in>set (circles cell). circle_ok now c \<and> Q (eventIndex c)"
  shows "distinct (map id_c (circles (advanceCell now cell)))
     \<and> (\<forall>c\<in>set (circles (advanceCell now cell)). circle_ok now c \<and> Q (eventIndex c))"
proof -
  have "map id_c (map (advanceCircle now) (circles cell)) = map id_c (circles cell)"
    by (simp add: comp_def)
  then have "distinct (map id_c (filter (keepCircle now) (map (advanceCircle now) (circles cell))))"
    using assms(1) by (metis distinct_map_filter)
  moreover have "\<forall>c\<in>set (filter (keepCircle now) (map (advanceCircle now) (circles cell))).
      circle_ok now c \<and> Q (eventIndex c)"
    using assms(2) by (auto simp: circle_ok_advanceCircle)
  ultimately show ?thesis by (simp add: advanceCell_def)
qed

lemma index_advanceCell [simp]: "index (advanceCell now cell) = index cell"
  by (simp add: advanceCell_def)

lemma session_ok_advance:
  assumes "session_ok s now"
  shows "session_ok (s\<lparr>cells := map (advanceCell now) (cells s)\<rparr>) now"
proof -
  have "distinct (map id_c (circles (advanceCell now cell)))
     \<and> (\<forall>c\<in>set (circles (advanceCell now cell)). circle_ok now c
           \<and> (trackStartTime s \<noteq> None \<longrightarrow> eventIndex c \<in> set (spawnedIndices s)))"
    if "cell \<in> set (cells s)" for cell
    using that assms
    by (intro cell_ok_advanceCell[where Q = "\<lambda>i. trackStartTime s \<noteq> None \<longrightarrow> i \<in> set (spawnedIndices s)"])
       (auto simp: session_ok_def)
  then show ?thesis
    using assms unfolding session_ok_def by (auto simp: comp_def)
qed

lemma session_ok_animate:
  assumes "session_ok s t" "t \<le> nowSpawn" "nowSpawn \<le> now"
  shows "session_ok (animate vp tr nowSpawn now s) now"
proof -
  have "session_ok (spawnFromTrack vp tr nowSpawn s) nowSpawn"
    using assms(1,2) by (intro session_ok_spawnFromTrack) (rule session_ok_mono)
  then have "session_ok (spawnFromTrack vp tr nowSpawn s) now"
    using assms(3) by (rule session_ok_mono)
  then show ?thesis
    unfolding animate_def Let_def by (rule session_ok_advance)
qed

lemma index_pressCell [simp]: "index (pressCell k now cell) = index cell"
  unfolding pressCell_def by (simp add: Let_def split: list.splits)

lemma circle_ok_hitUpdate:
  "circle_ok now w \<Longrightarrow> circle_ok now (hitUpdate now w (currentSize now w) w)"
  by (auto simp: circle_ok_def hitUpdate_def currentSize_le_1 currentSize_nonneg)

lemma id_hitUpdate [simp]: "id_c (hitUpdate now w sz c) = id_c c"
  by (simp add: hitUpdate_def)

lemma eventIndex_hitUpdate [simp]: "eventIndex (hitUpdate now w sz c) = eventIndex c"
  by (simp add: eventIndex_def)

lemma cell_ok_pressCell:
  assumes d: "distinct (map id_c (circles cell))"
    and c: "\<forall>c\<in>set (circles cell). circle_ok now c \<and> Q (eventIndex c)"
  shows "distinct (map id_c (circles (pressCell k now cell)))
     \<and> (\<forall>c\<in>set (circles (pressCell k now cell)). circle_ok now c \<and> Q (eventIndex c))"
proof (cases "index cell = k \<and> filter (eligible now) (circles cell) \<noteq> []")
  case False
  then have "pressCell k now cell = cell"
    using pressCell_other pressCell_noop by blast
  with d c show ?thesis by simp
next
  case True
  with pressCell_hit[of cell k now] d obtain pre w post where
    dec: "circles cell = pre @ w # post"
    and res: "pressCell k now cell = cell\<lparr>circles := pre @ hitUpdate now w (currentSize now w) w # post\<rparr>"
    by blast
  have "map id_c (circles (pressCell k now cell)) = map id_c (circles cell)"
    by (simp add: res dec)
  moreover have "circle_ok now (hitUpdate now w (currentSize now w) w)"
    using c dec by (simp add: circle_ok_hitUpdate)
  ultimately show ?thesis
    using d c by (auto simp: res dec)
qed

lemma session_ok_handleCellPress:
  assumes "session_ok s t" "t \<le> now"
  shows "session_ok (handleCellPress k now s) now"
proof -
  have ok: "session_ok s now" using assms by (rule session_ok_mono)
  have "distinct (map id_c (circles (pressCell k now cell)))
     \<and> (\<forall>c\<in>set (circles (pressCell k now cell)). circle_ok now c
           \<and> (trackStartTime s \<noteq> None \<longrightarrow> eventIndex c \<in> set (spawnedIndices s)))"
    if "cell \<in> set (cells s)" for cell
    using that ok
    by (intro cell_ok_pressCell[where Q = "\<lambda>i. trackStartTime s \<noteq> None \<longrightarrow> i \<in> set (spawnedIndices s)"])
       (auto simp: session_ok_def)
  then show ?thesis
    using ok unfolding session_ok_def handleCellPress_def by (auto simp: comp_def)
qed

lemma session_ok_stopSession: "session_ok s t \<Longrightarrow> session_ok (stopSession s) t"
  by (auto simp: session_ok_def stopSession_def)

lemma session_ok_checkTrackFinished:
  "session_ok s t \<Longrightarrow> session_ok (checkTrackFinished tr now s) t"
  by (auto simp: checkTrackFinished_def Let_def session_ok_stopSession split: option.splits)

lemma reachable_session_ok: "reachable tr s t \<Longrightarrow> session_ok s t"
proof (induction rule: reachable.induct)
  case (r_init t)
  show ?case by (rule session_ok_emptyGrid) (simp add: initialSession_def)
next
  case (r_start s t now)
  show ?case by (rule session_ok_emptyGrid) (simp add: startTrack_def)
next
  case (r_tick s t nowSpawn now vp)
  then show ?case by (simp add: session_ok_animate)
next
  case (r_press s t now k)
  then show ?case by (simp add: session_ok_handleCellPress)
next
  case (r_check s t now)
  then show ?case by (blast intro: session_ok_checkTrackFinished session_ok_mono)
qed

subsection \<open>Judgment: the claims\<close>

lemma reachable_firstFrame: "reachable singleEventTrack firstFrame 0"
  unfolding firstFrame_def
  by (rule r_tick[where t = 0]) (rule r_start[where t = 0], rule r_init, simp_all)

lemma reachable_overlapFrames: "reachable overlapTrack overlapFrames 300"
  unfolding overlapFrames_def
  by (rule r_tick[where t = 0], rule r_tick[where t = 0], rule r_start[where t = 0], rule r_init)
     simp_all

lemma reachable_cell_distinct:
  "reachable tr s t \<Longrightarrow> cell \<in> set (cells s) \<Longrightarrow> distinct (map id_c (circles cell))"
  by (drule reachable_session_ok) (simp add: session_ok_def)

lemma hitStatus_hitUpdate [simp]: "hitStatus (hitUpdate now w sz c) = Some Correct"
  by (simp add: hitUpdate_def)

text \<open>
  C1. A press of cell \<open>k\<close> at time \<open>now\<close>, in any reachable state. If no circle of that
  cell is unresolved and inside its hit window, the whole session is unchanged. Otherwise the
  cell's circles split as \<open>pre @ w # post\<close>, where \<open>w\<close> is unresolved and in its window, every
  eligible circle spawned before it has a strictly smaller growth and every eligible circle
  spawned after it has at most the same growth (the greatest growth wins, the earliest
  inserted among equals); \<open>w\<close> becomes \<open>correct\<close>, and \<open>pre\<close>, \<open>post\<close> and every cell
  with another index are returned as they were.
\<close>

theorem handleCellPress_resolves_best_in_window:
  assumes "reachable tr s t"
  shows "handleCellPress k now s = s\<lparr>cells := map (pressCell k now) (cells s)\<rparr>
    \<and> ((\<forall>cell\<in>set (cells s). index cell = k \<longrightarrow> filter (eligible now) (circles cell) = [])
          \<longrightarrow> handleCellPress k now s = s)
    \<and> (\<forall>cell\<in>set (cells s).
          (index cell \<noteq> k \<longrightarrow> pressCell k now cell = cell)
        \<and> (index cell = k \<and> filter (eligible now) (circles cell) \<noteq> [] \<longrightarrow>
             (\<exists>pre w post. circles cell = pre @ w # post \<and> eligible now w
                \<and> (\<forall>x\<in>set pre. eligible now x \<longrightarrow> currentSize now x < currentSize now w)
                \<and> (\<forall>x\<in>set post. eligible now x \<longrightarrow> currentSize now x \<le> currentSize now w)
                \<and> hitStatus (hitUpdate now w (currentSize now w) w) = Some Correct
                \<and> pressCell k now cell
                    = cell\<lparr>circles := pre @ hitUpdate now w (currentSize now w) w # post\<rparr>)))"
proof (intro conjI ballI impI)
  show "handleCellPress k now s = s\<lparr>cells := map (pressCell k now) (cells s)\<rparr>"
    by (simp add: handleCellPress_def)
next
  assume none: "\<forall>cell\<in>set (cells s). index cell = k \<longrightarrow> filter (eligible now) (circles cell) = []"
  have "pressCell k now cell = cell" if "cell \<in> set (cells s)" for cell
    using that none pressCell_other[of cell k now] pressCell_noop[of now cell k] by blast
  then have "map (pressCell k now) (cells s) = cells s"
    by (simp add: map_idI)
  then show "handleCellPress k now s = s"
    by (simp add: handleCellPress_def)
next
  fix cell assume "cell \<in> set (cells s)" "index cell \<noteq> k"
  then show "pressCell k now cell = cell" by (simp add: pressCell_other)
next
  fix cell assume cell: "cell \<in> set (cells s)"
    and "index cell = k \<and> filter (eligible now) (circles cell) \<noteq> []"
  then have k: "index cell = k" and el: "filter (eligible now) (circles cell) \<noteq> []" by simp_all
  from pressCell_hit[OF k el reachable_cell_distinct[OF assms cell]]
  show "\<exists>pre w post. circles cell = pre @ w # post \<and> eligible now w
          \<and> (\<forall>x\<in>set pre. eligible now x \<longrightarrow> currentSize now x < currentSize now w)
          \<and> (\<forall>x\<in>set post. eligible now x \<longrightarrow> currentSize now x \<le> currentSize now w)
          \<and> hitStatus (hitUpdate now w (currentSize now w) w) = Some Correct
          \<and> pressCell k now cell
              = cell\<lparr>circles := pre @ hitUpdate now w (currentSize now w) w # post\<rparr>"
    by (simp only: hitStatus_hitUpdate simp_thms)
qed

theorem handleCellPress_resolves_best_in_window_witness:
  "reachable overlapTrack overlapFrames 300
   \<and> cells overlapFrames ! 3 \<in> set (cells overlapFrames)
   \<and> index (cells overlapFrames ! 3) = 3
   \<and> filter (eligible 1150) (circles (cells overlapFrames ! 3)) \<noteq> []
   \<and> map (currentSize 1150) (circles (cells overlapFrames ! 3)) = [1, 17 / 20]
   \<and> map hitStatus (circles (pressCell 3 1150 (cells overlapFrames ! 3))) = [Some Correct, None]
   \<and> (\<exists>pre w post. circles (cells overlapFrames ! 3) = pre @ w # post \<and> eligible 1150 w
         \<and> (\<forall>x\<in>set pre. eligible 1150 x \<longrightarrow> currentSize 1150 x < currentSize 1150 w)
         \<and> (\<forall>x\<in>set post. eligible 1150 x \<longrightarrow> currentSize 1150 x \<le> currentSize 1150 w)
         \<and> pressCell 3 1150 (cells overlapFrames ! 3)
             = (cells overlapFrames ! 3)\<lparr>circles := pre @ hitUpdate 1150 w (currentSize 1150 w) w # post\<rparr>)"
proof -
  have r: "reachable overlapTrack overlapFrames 300" by (rule reachable_overlapFrames)
  have m: "cells overlapFrames ! 3 \<in> set (cells overlapFrames)" by code_simp
  have i: "index (cells overlapFrames ! 3) = 3" by code_simp
  have e: "filter (eligible 1150) (circles (cells overlapFrames ! 3)) \<noteq> []" by code_simp
  have g: "map (currentSize 1150) (circles (cells overlapFrames ! 3)) = [1, 17 / 20]" by code_simp
  have h: "map hitStatus (circles (pressCell 3 1150 (cells overlapFrames ! 3))) = [Some Correct, None]"
    by code_simp
  from handleCellPress_resolves_best_in_window[OF r, of 3 1150] m i e
  have "\<exists>pre w post. circles (cells overlapFrames ! 3) = pre @ w # post \<and> eligible 1150 w
         \<and> (\<forall>x\<in>set pre. eligible 1150 x \<longrightarrow> currentSize 1150 x < currentSize 1150 w)
         \<and> (\<forall>x\<in>set post. eligible 1150 x \<longrightarrow> currentSize 1150 x \<le> currentSize 1150 w)
         \<and> hitStatus (hitUpdate 1150 w (currentSize 1150 w) w) = Some Correct
         \<and> pressCell 3 1150 (cells overlapFrames ! 3)
             = (cells overlapFrames ! 3)\<lparr>circles := pre @ hitUpdate 1150 w (currentSize 1150 w) w # post\<rparr>"
    by blast
  then show ?thesis using r m i e g h by blast
qed

lemma rating_unfold:
  "calculateHitRating now P =
     (if \<bar>now - P\<bar> \<le> 25 then Perfect else if \<bar>now - P\<bar> \<le> 50 then Great
      else if \<bar>now - P\<bar> \<le> 100 then Good else Ok)"
  by (simp add: calculateHitRating_def Let_def PERFECT_WINDOW_def GREAT_WINDOW_def GOOD_WINDOW_def)

lemma pressCell_changed:
  assumes d: "distinct (map id_c (circles cell))"
    and new: "c' \<in> set (circles (pressCell k now cell))" "c' \<notin> set (circles cell)"
  shows "\<exists>w\<in>set (circles cell). eligible now w \<and> c' = hitUpdate now w (currentSize now w) w"
proof (cases "index cell = k \<and> filter (eligible now) (circles cell) \<noteq> []")
  case False
  then have "pressCell k now cell = cell"
    using pressCell_other pressCell_noop by blast
  with new show ?thesis by simp
next
  case True
  with pressCell_hit[of cell k now] d obtain pre w post where
    dec: "circles cell = pre @ w # post" and ew: "eligible now w"
    and res: "pressCell k now cell = cell\<lparr>circles := pre @ hitUpdate now w (currentSize now w) w # post\<rparr>"
    by blast
  from new have "c' = hitUpdate now w (currentSize now w) w"
    by (auto simp: res dec)
  with dec ew show ?thesis by auto
qed

text \<open>
  C2. The rating depends on \<open>now\<close> and the perfect time \<open>P\<close> only through their distance:
  at most 25 ms is perfect, at most 50 great, at most 100 good, anything further ok; so a
  hit at \<open>P\<close>, \<open>P + 30\<close>, \<open>P + 60\<close>, \<open>P + 120\<close> is perfect, great, good, ok. The circle that
  a press changes, in a reachable state, is a hit at \<open>now\<close> rated by its own perfect time.
\<close>

theorem rating_is_function_of_time_difference:
  "calculateHitRating now P =
     (if \<bar>now - P\<bar> \<le> 25 then Perfect else if \<bar>now - P\<bar> \<le> 50 then Great
      else if \<bar>now - P\<bar> \<le> 100 then Good else Ok)
   \<and> calculateHitRating P P = Perfect
   \<and> calculateHitRating (P + 30) P = Great
   \<and> calculateHitRating (P + 60) P = Good
   \<and> calculateHitRating (P + 120) P = Ok
   \<and> (\<forall>tr s t cell k c'.
         reachable tr s t \<and> cell \<in> set (cells s)
         \<and> c' \<in> set (circles (pressCell k now cell)) \<and> c' \<notin> set (circles cell)
         \<longrightarrow> hitStatus c' = Some Correct \<and> hitTime c' = Some now
             \<and> hitRating c' = Some (calculateHitRating now (perfectTime c')))"
proof (intro conjI allI impI)
  fix tr s t cell k c'
  assume a: "reachable tr s t \<and> cell \<in> set (cells s)
         \<and> c' \<in> set (circles (pressCell k now cell)) \<and> c' \<notin> set (circles cell)"
  then have "distinct (map id_c (circles cell))" by (blast intro: reachable_cell_distinct)
  with a obtain w where "c' = hitUpdate now w (currentSize now w) w"
    using pressCell_changed by blast
  then show "hitStatus c' = Some Correct" "hitTime c' = Some now"
    "hitRating c' = Some (calculateHitRating now (perfectTime c'))"
    by (simp_all add: hitUpdate_def)
qed (simp_all add: rating_unfold)

theorem rating_is_function_of_time_difference_witness:
  "reachable singleEventTrack firstFrame 0
   \<and> cells firstFrame ! 3 \<in> set (cells firstFrame)
   \<and> hd (circles (pressCell 3 1030 (cells firstFrame ! 3))) \<in> set (circles (pressCell 3 1030 (cells firstFrame ! 3)))
   \<and> hd (circles (pressCell 3 1030 (cells firstFrame ! 3))) \<notin> set (circles (cells firstFrame ! 3))
   \<and> perfectTime (hd (circles (pressCell 3 1030 (cells firstFrame ! 3)))) = 1000
   \<and> hitRating (hd (circles (pressCell 3 1030 (cells firstFrame ! 3)))) = Some Great"
proof -
  let ?c = "hd (circles (pressCell 3 1030 (cells firstFrame ! 3)))"
  have r: "reachable singleEventTrack firstFrame 0" by (rule reachable_firstFrame)
  have m: "cells firstFrame ! 3 \<in> set (cells firstFrame)" by code_simp
  have n: "?c \<in> set (circles (pressCell 3 1030 (cells firstFrame ! 3)))" by code_simp
  have o: "?c \<notin> set (circles (cells firstFrame ! 3))" by code_simp
  have p: "perfectTime ?c = 1000" by code_simp
  from rating_is_function_of_time_difference[of 1030 1000] r m n o
  have "hitRating ?c = Some (calculateHitRating 1030 (perfectTime ?c))"
    and "calculateHitRating (1000 + 30) 1000 = Great"
    by blast+
  then show ?thesis using r m n o p by simp
qed

subsection \<open>Lifecycle: what an advance and a press may change\<close>

lemma reachable_afterHit: "reachable singleEventTrack afterHit 1000"
  unfolding afterHit_def by (rule r_press[OF reachable_firstFrame]) simp

lemma appended_refl: "appended cs cs"
  by (simp add: appended_def list_all2_refl)

lemma appended_trans:
  assumes "appended a b" "appended b c"
  shows "appended a c"
  using assms unfolding appended_def
  by (rule list_all2_trans[rotated]) auto

lemma appended_spawnItem: "appended (cells s) (cells (spawnItem vp now e p s))"
proof -
  obtain idx item where p: "p = (idx, item)" by (cases p)
  have "appended (cells s) (map (\<lambda>cell. if index cell = cellIndex_t item
            then cell\<lparr>circles := circles cell @ [newCircle vp now item idx]\<rparr> else cell) (cells s))"
    unfolding appended_def by (simp add: list_all2_map2 list_all2_refl)
  then show ?thesis
    unfolding p spawnItem_def Let_def by (simp add: appended_refl)
qed

lemma appended_fold_spawnItem: "appended (cells s) (cells (fold (spawnItem vp now e) ps s))"
proof (induction ps arbitrary: s)
  case Nil
  show ?case by (simp add: appended_refl)
next
  case (Cons p ps)
  show ?case using appended_trans[OF appended_spawnItem Cons.IH] by simp
qed

lemma appended_spawnFromTrack: "appended (cells s) (cells (spawnFromTrack vp tr now s))"
  by (simp add: spawnFromTrack_def appended_refl appended_fold_spawnItem split: option.splits)

lemma appended_nth:
  "appended cs cs' \<Longrightarrow> i < length cs \<Longrightarrow> i < length cs' \<and> set (circles (cs ! i)) \<subseteq> set (circles (cs' ! i))"
  unfolding appended_def by (auto dest: list_all2_nthD list_all2_lengthD)

lemma keep_unresolved:
  assumes "hitStatus c = None" "hitTime c = None"
  shows "keepCircle now (advanceCircle now c)"
proof (cases "now > hitWindowEnd c + 50")
  case True
  then show ?thesis using assms
    by (simp add: keepCircle_def advanceCircle_def HIT_FEEDBACK_DURATION_def)
next
  case False
  have "currentSize now c \<le> 11 / 10" using currentSize_le_1[of now c] by simp
  then show ?thesis using assms False
    by (simp add: keepCircle_def advanceCircle_def Let_def)
qed

lemma evicted_after_feedback:
  assumes ok: "hitStatus c = None \<longleftrightarrow> hitTime c = None"
    and gone: "\<not> keepCircle now (advanceCircle now c)"
  shows "\<exists>h. hitTime c = Some h \<and> HIT_FEEDBACK_DURATION \<le> now - h"
proof (cases "hitStatus c")
  case None
  with ok keep_unresolved gone show ?thesis by blast
next
  case (Some st)
  with ok obtain h where h: "hitTime c = Some h" by auto
  with Some gone show ?thesis
    by (simp add: keepCircle_def advanceCircle_def)
qed

lemma advanceCircle_resolved:
  "hitStatus c \<noteq> None \<Longrightarrow> advanceCircle now c = c\<lparr>currentPosition := targetPosition c\<rparr>"
  by (simp add: advanceCircle_def)

lemma pressCell_keeps_resolved:
  assumes d: "distinct (map id_c (circles cell))"
  shows "length (circles (pressCell k now cell)) = length (circles cell)
     \<and> map id_c (circles (pressCell k now cell)) = map id_c (circles cell)
     \<and> (\<forall>i<length (circles cell). hitStatus (circles cell ! i) \<noteq> None
           \<longrightarrow> circles (pressCell k now cell) ! i = circles cell ! i)"
proof (cases "index cell = k \<and> filter (eligible now) (circles cell) \<noteq> []")
  case False
  then have "pressCell k now cell = cell"
    using pressCell_other pressCell_noop by blast
  then show ?thesis by simp
next
  case True
  with pressCell_hit[of cell k now] d obtain pre w post where
    dec: "circles cell = pre @ w # post" and ew: "eligible now w"
    and res: "pressCell k now cell = cell\<lparr>circles := pre @ hitUpdate now w (currentSize now w) w # post\<rparr>"
    by blast
  have "circles (pressCell k now cell) ! i = circles cell ! i"
    if "hitStatus (circles cell ! i) \<noteq> None" for i
  proof (cases "i = length pre")
    case True
    with that dec ew show ?thesis by (simp add: eligible_def)
  next
    case False
    then show ?thesis by (simp add: res dec nth_append nth_Cons')
  qed
  then show ?thesis by (simp add: res dec)
qed

subsection \<open>Lifecycle: the claims\<close>

lemma reachable_missedFrame: "reachable singleEventTrack missedFrame 1400"
  unfolding missedFrame_def by (rule r_tick[OF reachable_firstFrame]) simp_all

text \<open>
  C4. A resolved circle stays as it is. An advance returns it with only its display
  position changed, so size, hitStatus, hitTime and hitRating are frozen; and a press, in a
  reachable state, returns every resolved circle of the cell unchanged at its place, so the
  circle a press resolves is never one whose hitStatus is already set.
\<close>

theorem resolved_circle_is_frozen:
  "(hitStatus c \<noteq> None \<longrightarrow>
       advanceCircle now c = c\<lparr>currentPosition := targetPosition c\<rparr>
     \<and> size_c (advanceCircle now c) = size_c c
     \<and> hitStatus (advanceCircle now c) = hitStatus c
     \<and> hitTime (advanceCircle now c) = hitTime c
     \<and> hitRating (advanceCircle now c) = hitRating c)
   \<and> (\<forall>tr s t cell k.
         reachable tr s t \<and> cell \<in> set (cells s) \<longrightarrow>
           length (circles (pressCell k now cell)) = length (circles cell)
         \<and> (\<forall>i<length (circles cell). hitStatus (circles cell ! i) \<noteq> None
               \<longrightarrow> circles (pressCell k now cell) ! i = circles cell ! i))"
proof -
  have a: "hitStatus c \<noteq> None \<longrightarrow>
       advanceCircle now c = c\<lparr>currentPosition := targetPosition c\<rparr>
     \<and> size_c (advanceCircle now c) = size_c c
     \<and> hitStatus (advanceCircle now c) = hitStatus c
     \<and> hitTime (advanceCircle now c) = hitTime c
     \<and> hitRating (advanceCircle now c) = hitRating c"
    by (simp add: advanceCircle_resolved)
  have b: "length (circles (pressCell k now cell)) = length (circles cell)
         \<and> (\<forall>i<length (circles cell). hitStatus (circles cell ! i) \<noteq> None
               \<longrightarrow> circles (pressCell k now cell) ! i = circles cell ! i)"
    if "reachable tr s t \<and> cell \<in> set (cells s)" for tr s t cell k
  proof -
    from that have d: "distinct (map id_c (circles cell))"
      by (blast intro: reachable_cell_distinct)
    from pressCell_keeps_resolved[OF d, of k now] show ?thesis by blast
  qed
  from a b show ?thesis by blast
qed

theorem resolved_circle_is_frozen_witness:
  "hitStatus (hd (circles (cells afterHit ! 3))) = Some Correct
   \<and> hitRating (advanceCircle 1050 (hd (circles (cells afterHit ! 3)))) = Some Perfect
   \<and> hitTime (advanceCircle 1050 (hd (circles (cells afterHit ! 3)))) = Some 1000
   \<and> reachable singleEventTrack afterHit 1000
   \<and> cells afterHit ! 3 \<in> set (cells afterHit)
   \<and> (0::nat) < length (circles (cells afterHit ! 3))
   \<and> hitStatus (circles (cells afterHit ! 3) ! 0) = Some Correct
   \<and> circles (pressCell 3 1050 (cells afterHit ! 3)) ! 0 = circles (cells afterHit ! 3) ! 0"
proof -
  let ?c = "hd (circles (cells afterHit ! 3))"
  have a: "hitStatus ?c = Some Correct" "hitRating ?c = Some Perfect" "hitTime ?c = Some 1000"
    by code_simp+
  have r: "reachable singleEventTrack afterHit 1000" by (rule reachable_afterHit)
  have m: "cells afterHit ! 3 \<in> set (cells afterHit)" by code_simp
  have l: "(0::nat) < length (circles (cells afterHit ! 3))" by code_simp
  have h: "hitStatus (circles (cells afterHit ! 3) ! 0) = Some Correct" by code_simp
  from resolved_circle_is_frozen[of ?c 1050] a
  have f: "hitRating (advanceCircle 1050 ?c) = Some Perfect" "hitTime (advanceCircle 1050 ?c) = Some 1000"
    by simp_all
  from resolved_circle_is_frozen[of ?c 1050] r m l h
  have "circles (pressCell 3 1050 (cells afterHit ! 3)) ! 0 = circles (cells afterHit ! 3) ! 0"
    by (metis option.distinct(1))
  with a f r m l h show ?thesis by simp
qed

lemma reachable_stoppedRun: "reachable singleEventTrack stoppedRun 1301"
  unfolding stoppedRun_def
  by (rule r_check[where t = 1260], rule r_tick[OF reachable_firstFrame]) simp_all

theorem restart_discards_circles_counterexample:
  "reachable singleEventTrack stoppedRun 1301
   \<and> \<not> isPlaying stoppedRun
   \<and> map hitStatus (circles (cells stoppedRun ! 3)) = [Some Miss]
   \<and> map hitTime (circles (cells stoppedRun ! 3)) = [Some 1260]
   \<and> map hitTime (circles (cells (animate plainViewport singleEventTrack 1320 1320 stoppedRun) ! 3))
       = [Some 1260]
   \<and> reachable singleEventTrack (startTrack 1320 stoppedRun) 1320
   \<and> circles (cells (startTrack 1320 stoppedRun) ! 3) = []
   \<and> reachable singleEventTrack (startTrack 500 firstFrame) 500
   \<and> map hitTime (circles (cells firstFrame ! 3)) = [None]
   \<and> circles (cells (startTrack 500 firstFrame) ! 3) = []"
proof -
  have r1: "reachable singleEventTrack stoppedRun 1301" by (rule reachable_stoppedRun)
  have r2: "reachable singleEventTrack (startTrack 1320 stoppedRun) 1320"
    by (rule r_start[OF r1]) simp
  have r3: "reachable singleEventTrack (startTrack 500 firstFrame) 500"
    by (rule r_start[OF reachable_firstFrame]) simp
  have a: "\<not> isPlaying stoppedRun" by code_simp
  have b: "map hitStatus (circles (cells stoppedRun ! 3)) = [Some Miss]" by code_simp
  have c: "map hitTime (circles (cells stoppedRun ! 3)) = [Some 1260]" by code_simp
  have d: "map hitTime (circles (cells (animate plainViewport singleEventTrack 1320 1320 stoppedRun) ! 3))
       = [Some 1260]" by code_simp
  have e: "circles (cells (startTrack 1320 stoppedRun) ! 3) = []" by code_simp
  have f: "map hitTime (circles (cells firstFrame ! 3)) = [None]" by code_simp
  have g: "circles (cells (startTrack 500 firstFrame) ! 3) = []" by code_simp
  from r1 r2 r3 a b c d e f g show ?thesis by (intro conjI)
qed

text \<open>
  C10 (amended). In every reachable state each circle's size field is between 0 and 1, and
  so is the growth \<open>min (elapsed / duration) 1\<close> at any later clock reading. An advance
  keeps every unresolved circle: the test \<open>size \<le> 1.1\<close> removes none. A circle leaves its
  cell in two ways only. A frame drops it only when its hitTime had been set at least
  100 ms before; a press and the completion check drop none. And \<open>startTrack\<close>
  replaces the grid by nine empty cells, which discards every circle, resolved or not and
  however recently.
\<close>

theorem size_in_unit_interval_and_eviction_only_after_feedback:
  assumes "reachable tr s t"
  shows "(\<forall>cell\<in>set (cells s). \<forall>c\<in>set (circles cell).
            0 \<le> size_c c \<and> size_c c \<le> 1
          \<and> (\<forall>now. t \<le> now \<longrightarrow> 0 \<le> currentSize now c \<and> currentSize now c \<le> 1)
          \<and> (\<forall>now. hitStatus c = None \<longrightarrow> keepCircle now (advanceCircle now c)))
     \<and> (\<forall>vp nowSpawn now i. i < length (cells s) \<longrightarrow>
           (\<forall>c\<in>set (circles (cells s ! i)).
              id_c c \<notin> id_c ` set (circles (cells (animate vp tr nowSpawn now s) ! i))
              \<longrightarrow> (\<exists>h. hitTime c = Some h \<and> hitStatus c \<noteq> None \<and> HIT_FEEDBACK_DURATION \<le> now - h)))
     \<and> (\<forall>k now i. i < length (cells s) \<longrightarrow>
           map id_c (circles (cells (handleCellPress k now s) ! i)) = map id_c (circles (cells s ! i)))
     \<and> (\<forall>now. cells (checkTrackFinished tr now s) = cells s)
     \<and> (\<forall>now. cells (startTrack now s) = emptyGrid
              \<and> concat (map circles (cells (startTrack now s))) = [])"
proof -
  have ok: "session_ok s t" using assms by (rule reachable_session_ok)
  have cok: "circle_ok t c" if "cell \<in> set (cells s)" "c \<in> set (circles cell)" for cell c
    using ok that by (auto simp: session_ok_def)
  have p1: "\<forall>cell\<in>set (cells s). \<forall>c\<in>set (circles cell).
            0 \<le> size_c c \<and> size_c c \<le> 1
          \<and> (\<forall>now. t \<le> now \<longrightarrow> 0 \<le> currentSize now c \<and> currentSize now c \<le> 1)
          \<and> (\<forall>now. hitStatus c = None \<longrightarrow> keepCircle now (advanceCircle now c))"
  proof (intro ballI)
    fix cell c assume "cell \<in> set (cells s)" "c \<in> set (circles cell)"
    then have c: "circle_ok t c" by (rule cok)
    then have "0 \<le> size_c c \<and> size_c c \<le> 1" by (simp add: circle_ok_def)
    moreover have "0 \<le> currentSize now c \<and> currentSize now c \<le> 1" if "t \<le> now" for now
      using c that currentSize_nonneg[of c now] currentSize_le_1[of now c]
      by (simp add: circle_ok_def)
    moreover have "keepCircle now (advanceCircle now c)" if "hitStatus c = None" for now
      using c that by (intro keep_unresolved) (simp_all add: circle_ok_def)
    ultimately show "0 \<le> size_c c \<and> size_c c \<le> 1
          \<and> (\<forall>now. t \<le> now \<longrightarrow> 0 \<le> currentSize now c \<and> currentSize now c \<le> 1)
          \<and> (\<forall>now. hitStatus c = None \<longrightarrow> keepCircle now (advanceCircle now c))"
      by blast
  qed
  have p2: "\<exists>h. hitTime c = Some h \<and> hitStatus c \<noteq> None \<and> HIT_FEEDBACK_DURATION \<le> now - h"
    if i: "i < length (cells s)" and c: "c \<in> set (circles (cells s ! i))"
      and gone: "id_c c \<notin> id_c ` set (circles (cells (animate vp tr nowSpawn now s) ! i))"
    for vp nowSpawn now i c
  proof -
    let ?s1 = "spawnFromTrack vp tr nowSpawn s"
    from appended_nth[OF appended_spawnFromTrack i, of vp tr nowSpawn] c
    have i1: "i < length (cells ?s1)" and c1: "c \<in> set (circles (cells ?s1 ! i))" by auto
    have "cells (animate vp tr nowSpawn now s) ! i = advanceCell now (cells ?s1 ! i)"
      using i1 by (simp add: animate_def Let_def)
    then have "circles (cells (animate vp tr nowSpawn now s) ! i)
        = filter (keepCircle now) (map (advanceCircle now) (circles (cells ?s1 ! i)))"
      by (simp add: advanceCell_def)
    with gone have nk: "\<not> keepCircle now (advanceCircle now c)"
    proof -
      assume eq: "circles (cells (animate vp tr nowSpawn now s) ! i)
        = filter (keepCircle now) (map (advanceCircle now) (circles (cells ?s1 ! i)))"
      show ?thesis
      proof
        assume "keepCircle now (advanceCircle now c)"
        with c1 have "advanceCircle now c \<in> set (circles (cells (animate vp tr nowSpawn now s) ! i))"
          unfolding eq by simp
        then have "id_c (advanceCircle now c) \<in> id_c ` set (circles (cells (animate vp tr nowSpawn now s) ! i))"
          by (rule imageI)
        with gone show False by simp
      qed
    qed
    have ck: "circle_ok t c" using cok[of "cells s ! i" c] i c by simp
    then have iff: "hitStatus c = None \<longleftrightarrow> hitTime c = None" by (simp add: circle_ok_def)
    from evicted_after_feedback[OF iff nk] iff show ?thesis by auto
  qed
  have p3: "map id_c (circles (cells (handleCellPress k now s) ! i)) = map id_c (circles (cells s ! i))"
    if i: "i < length (cells s)" for k now i
  proof -
    have "distinct (map id_c (circles (cells s ! i)))"
      using ok i by (simp add: session_ok_def)
    from pressCell_keeps_resolved[OF this, of k now] i show ?thesis
      by (simp add: handleCellPress_def)
  qed
  have p4: "cells (checkTrackFinished tr now s) = cells s" for now
    by (simp add: checkTrackFinished_def stopSession_def Let_def split: option.splits)
  have p5: "cells (startTrack now s) = emptyGrid
      \<and> concat (map circles (cells (startTrack now s))) = []" for now
    by (simp add: startTrack_def emptyGrid_circles)
  from p1 p2 p3 p4 p5 show ?thesis by blast
qed

theorem size_in_unit_interval_and_eviction_only_after_feedback_witness:
  "reachable singleEventTrack missedFrame 1400
   \<and> (3::nat) < length (cells missedFrame)
   \<and> hd (circles (cells missedFrame ! 3)) \<in> set (circles (cells missedFrame ! 3))
   \<and> id_c (hd (circles (cells missedFrame ! 3)))
        \<notin> id_c ` set (circles (cells (animate plainViewport singleEventTrack 1500 1500 missedFrame) ! 3))
   \<and> cells missedFrame ! 3 \<in> set (cells missedFrame)
   \<and> 0 \<le> size_c (hd (circles (cells missedFrame ! 3)))
   \<and> size_c (hd (circles (cells missedFrame ! 3))) \<le> 1
   \<and> (\<exists>h. hitTime (hd (circles (cells missedFrame ! 3))) = Some h \<and> HIT_FEEDBACK_DURATION \<le> 1500 - h)
   \<and> cells (startTrack 1450 missedFrame) = emptyGrid
   \<and> concat (map circles (cells (startTrack 1450 missedFrame))) = []"
proof -
  let ?c = "hd (circles (cells missedFrame ! 3))"
  have r: "reachable singleEventTrack missedFrame 1400" by (rule reachable_missedFrame)
  have i: "(3::nat) < length (cells missedFrame)" by code_simp
  have c: "?c \<in> set (circles (cells missedFrame ! 3))" by code_simp
  have g: "id_c ?c \<notin> id_c ` set (circles (cells (animate plainViewport singleEventTrack 1500 1500 missedFrame) ! 3))"
    by code_simp
  have m: "cells missedFrame ! 3 \<in> set (cells missedFrame)" by code_simp
  note th = size_in_unit_interval_and_eviction_only_after_feedback[OF r]
  from th m c have "0 \<le> size_c ?c \<and> size_c ?c \<le> 1" by blast
  moreover from th i c g have "\<exists>h. hitTime ?c = Some h \<and> HIT_FEEDBACK_DURATION \<le> 1500 - h" by blast
  moreover from th have "cells (startTrack 1450 missedFrame) = emptyGrid
      \<and> concat (map circles (cells (startTrack 1450 missedFrame))) = []" by blast
  ultimately show ?thesis using r i c g m by blast
qed

subsection \<open>Scheduler: the fired list\<close>

lemma spawnItem_fired:
  "idx \<in> set (spawnedIndices s) \<Longrightarrow> spawnItem vp now e (idx, item) s = s"
  by (simp add: spawnItem_def)

lemma spawnedIndices_spawnItem:
  "spawnedIndices (spawnItem vp now e (idx, item) s)
     = spawnedIndices s @ (if idx \<notin> set (spawnedIndices s) \<and> spawnTime item - 10 \<le> e then [idx] else [])"
  by (simp add: spawnItem_def Let_def)

lemma spawnedIndices_fold_spawnItem:
  "spawnedIndices (fold (spawnItem vp now e) (enumerate n xs) s)
     = spawnedIndices s
       @ filter (\<lambda>j. j \<notin> set (spawnedIndices s) \<and> spawnTime (xs ! (j - n)) - 10 \<le> e) [n..<n + length xs]"
proof (induction xs arbitrary: n s)
  case Nil
  show ?case by simp
next
  case (Cons x xs)
  let ?s1 = "spawnItem vp now e (n, x) s"
  define L where "L = [Suc n..<Suc n + length xs]"
  have f1: "spawnedIndices ?s1
     = spawnedIndices s @ (if n \<notin> set (spawnedIndices s) \<and> spawnTime x - 10 \<le> e then [n] else [])"
    by (rule spawnedIndices_spawnItem)
  have rest: "filter (\<lambda>j. j \<notin> set (spawnedIndices ?s1) \<and> spawnTime (xs ! (j - Suc n)) - 10 \<le> e) L
            = filter (\<lambda>j. j \<notin> set (spawnedIndices s) \<and> spawnTime ((x # xs) ! (j - n)) - 10 \<le> e) L"
    unfolding L_def by (rule filter_cong) (auto simp: f1 nth_Cons' split: if_splits)
  have "n < n + length (x # xs)" by simp
  from upt_conv_Cons[OF this]
  have up: "[n..<n + length (x # xs)] = n # L"
    by (simp add: L_def)
  have "spawnedIndices (fold (spawnItem vp now e) (enumerate n (x # xs)) s)
      = spawnedIndices (fold (spawnItem vp now e) (enumerate (Suc n) xs) ?s1)"
    by simp
  also have "\<dots> = spawnedIndices ?s1
       @ filter (\<lambda>j. j \<notin> set (spawnedIndices ?s1) \<and> spawnTime (xs ! (j - Suc n)) - 10 \<le> e) L"
    unfolding L_def by (rule Cons.IH)
  also have "\<dots> = spawnedIndices ?s1
       @ filter (\<lambda>j. j \<notin> set (spawnedIndices s) \<and> spawnTime ((x # xs) ! (j - n)) - 10 \<le> e) L"
    by (simp only: rest)
  also have "\<dots> = spawnedIndices s
       @ filter (\<lambda>j. j \<notin> set (spawnedIndices s) \<and> spawnTime ((x # xs) ! (j - n)) - 10 \<le> e) (n # L)"
    by (simp add: f1)
  finally show ?case unfolding up .
qed

lemma spawnedIndices_spawnFromTrack:
  "spawnedIndices (spawnFromTrack vp tr now s)
     = (case (isPlaying s, trackStartTime s) of
          (True, Some t0) \<Rightarrow>
            spawnedIndices s
            @ filter (\<lambda>j. j \<notin> set (spawnedIndices s) \<and> spawnTime (tr ! j) - 10 \<le> now - t0) [0..<length tr]
        | _ \<Rightarrow> spawnedIndices s)"
  using spawnedIndices_fold_spawnItem[of vp now _ 0 tr s]
  by (simp add: spawnFromTrack_def split: option.splits bool.splits)

lemma spawnedIndices_animate [simp]:
  "spawnedIndices (animate vp tr nowSpawn now s) = spawnedIndices (spawnFromTrack vp tr nowSpawn s)"
  by (simp add: animate_def Let_def)

lemma spawnedIndices_handleCellPress [simp]:
  "spawnedIndices (handleCellPress k now s) = spawnedIndices s"
  by (simp add: handleCellPress_def)

lemma sorted_track_nth:
  "sorted (map spawnTime tr) \<Longrightarrow> j \<le> k \<Longrightarrow> k < length tr \<Longrightarrow> spawnTime (tr ! j) \<le> spawnTime (tr ! k)"
  using sorted_nth_mono[of "map spawnTime tr" j k] by simp

lemma sorted_due_indices:
  assumes "sorted (map spawnTime tr)"
  shows "sorted (map (\<lambda>i. spawnTime (tr ! i)) (filter Q [0..<length tr]))"
proof -
  have "sorted_wrt (\<lambda>j k. spawnTime (tr ! j) \<le> spawnTime (tr ! k)) [0..<length tr]"
    using assms by (auto simp: sorted_wrt_iff_nth_less intro: sorted_track_nth)
  then have "sorted_wrt (\<lambda>j k. spawnTime (tr ! j) \<le> spawnTime (tr ! k)) (filter Q [0..<length tr])"
    by (rule sorted_wrt_filter)
  then show ?thesis by (simp add: sorted_map)
qed

lemma fired_in_order_append_due:
  assumes srt: "sorted (map spawnTime tr)" and inv: "fired_in_order tr fs"
  shows "fired_in_order tr
           (fs @ filter (\<lambda>j. j \<notin> set fs \<and> spawnTime (tr ! j) - 10 \<le> e) [0..<length tr])"
proof -
  let ?new = "filter (\<lambda>j. j \<notin> set fs \<and> spawnTime (tr ! j) - 10 \<le> e) [0..<length tr]"
  let ?off = "\<lambda>i. spawnTime (tr ! i)"
  have s1: "sorted (map ?off fs)" using inv by (simp add: fired_in_order_def)
  have s2: "sorted (map ?off ?new)" using srt by (rule sorted_due_indices)
  have s3: "\<forall>a\<in>set fs. \<forall>b\<in>set ?new. ?off a \<le> ?off b"
    using inv by (auto simp: fired_in_order_def)
  have "sorted (map ?off (fs @ ?new))"
    using s1 s2 s3 by (auto simp: sorted_append)
  moreover have "?off j \<le> ?off k"
    if "j \<in> set (fs @ ?new)" "k < length tr" "k \<notin> set (fs @ ?new)" for j k
  proof (cases "j \<in> set fs")
    case True
    with that inv show ?thesis by (auto simp: fired_in_order_def)
  next
    case False
    with that have "?off j - 10 \<le> e" and "\<not> ?off k - 10 \<le> e" by auto
    then show ?thesis by linarith
  qed
  ultimately show ?thesis unfolding fired_in_order_def by blast
qed

lemma fired_in_order_spawnFromTrack:
  assumes "sorted (map spawnTime tr)" "fired_in_order tr (spawnedIndices s)"
  shows "fired_in_order tr (spawnedIndices (spawnFromTrack vp tr now s))"
  using assms fired_in_order_append_due[OF assms]
  by (auto simp: spawnedIndices_spawnFromTrack split: option.splits bool.splits)

lemma fired_in_order_runStep:
  assumes "sorted (map spawnTime tr)" "fired_in_order tr (spawnedIndices s)"
  shows "fired_in_order tr (spawnedIndices (runStep tr ev s))"
  using assms by (cases ev) (simp_all add: fired_in_order_spawnFromTrack)

lemma fired_in_order_run:
  assumes "sorted (map spawnTime tr)"
  shows "fired_in_order tr (spawnedIndices s) \<Longrightarrow> fired_in_order tr (spawnedIndices (run tr es s))"
  unfolding run_def
  by (induction es arbitrary: s) (simp_all add: fired_in_order_runStep[OF assms])

subsection \<open>Scheduler: targets created per track index\<close>

lemma filter_concat_append_other:
  "\<not> P nc \<Longrightarrow>
   filter P (concat (map circles (map (\<lambda>cell::GridCell. if index cell = ci
        then cell\<lparr>circles := circles cell @ [nc]\<rparr> else cell) cs)))
   = filter P (concat (map circles cs))"
  by (induction cs) simp_all

lemma count_concat_append:
  "distinct (map index cs) \<Longrightarrow>
   length (filter P (concat (map circles (map (\<lambda>cell::GridCell. if index cell = ci
        then cell\<lparr>circles := circles cell @ [nc]\<rparr> else cell) cs))))
   \<le> length (filter P (concat (map circles cs))) + 1"
proof (induction cs)
  case Nil
  show ?case by simp
next
  case (Cons c cs)
  show ?case
  proof (cases "index c = ci")
    case True
    with Cons.prems have "\<forall>cell\<in>set cs. index cell \<noteq> ci" by (auto simp: image_iff)
    then have "map (\<lambda>cell::GridCell. if index cell = ci
        then cell\<lparr>circles := circles cell @ [nc]\<rparr> else cell) cs = cs"
      by (simp add: map_idI)
    with True show ?thesis by simp
  next
    case False
    with Cons show ?thesis by simp
  qed
qed

lemma count_concat_append_ge:
  "length (filter P (concat (map circles cs)))
   \<le> length (filter P (concat (map circles (map (\<lambda>cell::GridCell. if index cell = ci
        then cell\<lparr>circles := circles cell @ [nc]\<rparr> else cell) cs))))"
  by (induction cs) auto

lemma cells_spawnItem:
  "cells (spawnItem vp now e (idx, item) s)
     = (if idx \<notin> set (spawnedIndices s) \<and> spawnTime item - 10 \<le> e \<and> \<not> invalidCell item
        then map (\<lambda>cell. if index cell = cellIndex_t item
                    then cell\<lparr>circles := circles cell @ [newCircle vp now item idx]\<rparr> else cell) (cells s)
        else cells s)"
  by (simp add: spawnItem_def Let_def invalidCell_def)

lemma index_spawnItem [simp]: "map index (cells (spawnItem vp now e p s)) = map index (cells s)"
  by (cases p) (simp add: spawnItem_def Let_def comp_def if_distrib[of index] cong: if_cong)

lemma index_fold_spawnItem [simp]:
  "map index (cells (fold (spawnItem vp now e) ps s)) = map index (cells s)"
  by (induction ps arbitrary: s) simp_all

lemma index_spawnFromTrack [simp]: "map index (cells (spawnFromTrack vp tr now s)) = map index (cells s)"
  by (simp add: spawnFromTrack_def split: option.splits)

lemma index_animate [simp]: "map index (cells (animate vp tr nowSpawn now s)) = map index (cells s)"
  by (simp add: animate_def Let_def comp_def)

lemma index_handleCellPress [simp]: "map index (cells (handleCellPress k now s)) = map index (cells s)"
  by (simp add: handleCellPress_def comp_def)

lemma index_runStep [simp]: "map index (cells (runStep tr ev s)) = map index (cells s)"
  by (cases ev) simp_all

lemma targetsOf_spawnItem_other:
  assumes "idx \<noteq> i \<or> invalidCell item"
  shows "targetsOf i (spawnItem vp now e (idx, item) s) = targetsOf i s"
proof (cases "invalidCell item")
  case True
  then show ?thesis by (simp only: targetsOf_def cells_spawnItem) simp
next
  case False
  with assms have "\<not> eventIndex (newCircle vp now item idx) = i" by simp
  from filter_concat_append_other[of "\<lambda>c. eventIndex c = i", OF this]
  show ?thesis by (simp only: targetsOf_def cells_spawnItem split: if_split) simp
qed

text \<open>One more target for \<open>i\<close> only when \<open>i\<close> itself passes from unfired to fired.\<close>

lemma spawnItem_budget:
  assumes "distinct (map index (cells s))"
  shows "targetsOf i (spawnItem vp now e p s)
           + (if i \<in> set (spawnedIndices (spawnItem vp now e p s)) then 0 else 1)
         \<le> targetsOf i s + (if i \<in> set (spawnedIndices s) then 0 else 1)"
proof -
  obtain idx item where p: "p = (idx, item)" by (cases p)
  show ?thesis
  proof (cases "idx = i \<and> i \<notin> set (spawnedIndices s) \<and> spawnTime item - 10 \<le> e")
    case True
    then have "i \<in> set (spawnedIndices (spawnItem vp now e p s))"
      by (simp add: p spawnedIndices_spawnItem)
    moreover have "targetsOf i (spawnItem vp now e p s) \<le> targetsOf i s + 1"
      using count_concat_append[OF assms, of "\<lambda>c. eventIndex c = i"]
      by (simp only: p targetsOf_def cells_spawnItem split: if_split) simp
    ultimately show ?thesis using True by simp
  next
    case False
    then consider "idx \<noteq> i" | "idx = i" "i \<in> set (spawnedIndices s) \<or> \<not> spawnTime item - 10 \<le> e"
      by blast
    then show ?thesis
    proof cases
      case 1
      then have "targetsOf i (spawnItem vp now e p s) = targetsOf i s"
        by (simp add: p targetsOf_spawnItem_other)
      then show ?thesis by (simp add: p spawnedIndices_spawnItem)
    next
      case 2
      then have "spawnItem vp now e p s = s" by (auto simp: p spawnItem_def)
      then show ?thesis by simp
    qed
  qed
qed

lemma fold_spawnItem_budget:
  "distinct (map index (cells s)) \<Longrightarrow>
   targetsOf i (fold (spawnItem vp now e) ps s)
     + (if i \<in> set (spawnedIndices (fold (spawnItem vp now e) ps s)) then 0 else 1)
   \<le> targetsOf i s + (if i \<in> set (spawnedIndices s) then 0 else 1)"
proof (induction ps arbitrary: s)
  case Nil
  show ?case by simp
next
  case (Cons p ps)
  have "distinct (map index (cells (spawnItem vp now e p s)))"
    using Cons.prems by simp
  from Cons.IH[OF this] spawnItem_budget[OF Cons.prems, of i vp now e p]
  show ?case by simp
qed

lemma spawnFromTrack_budget:
  assumes "distinct (map index (cells s))"
  shows "targetsOf i (spawnFromTrack vp tr now s)
     + (if i \<in> set (spawnedIndices (spawnFromTrack vp tr now s)) then 0 else 1)
   \<le> targetsOf i s + (if i \<in> set (spawnedIndices s) then 0 else 1)"
proof (cases "isPlaying s \<and> trackStartTime s \<noteq> None")
  case False
  then have "spawnFromTrack vp tr now s = s"
    by (auto simp: spawnFromTrack_def)
  then show ?thesis by simp
next
  case True
  then obtain t0 where "spawnFromTrack vp tr now s = fold (spawnItem vp now (now - t0)) (enumerate 0 tr) s"
    by (auto simp: spawnFromTrack_def)
  then show ?thesis
    using fold_spawnItem_budget[OF assms, of i vp now "now - t0" "enumerate 0 tr"] by simp
qed

lemma fired_mono_spawnFromTrack:
  "set (spawnedIndices s) \<subseteq> set (spawnedIndices (spawnFromTrack vp tr now s))"
  by (auto simp: spawnedIndices_spawnFromTrack split: option.splits bool.splits)

lemma id_map_hitUpdate:
  "map id_c (map (\<lambda>c. if Q c then hitUpdate now w sz c else c) cs) = map id_c cs"
  by (induction cs) simp_all

lemma ids_pressCell: "map id_c (circles (pressCell k now cell)) = map id_c (circles cell)"
  unfolding pressCell_def Let_def
  by (simp add: id_map_hitUpdate split: list.splits)

lemma eventIndex_pressCell:
  "map eventIndex (circles (pressCell k now cell)) = map eventIndex (circles cell)"
proof -
  have "map eventIndex cs = map (\<lambda>p. snd (snd p)) (map id_c cs)" for cs :: "Circle list"
    by (simp add: eventIndex_def comp_def)
  then show ?thesis by (simp only: ids_pressCell)
qed

lemma count_eventIndex:
  "length (filter (\<lambda>c. eventIndex c = i) (concat (map circles cs)))
   = length (filter (\<lambda>j. j = i) (concat (map (\<lambda>cell. map eventIndex (circles cell)) cs)))"
  by (induction cs) (simp_all add: filter_map comp_def)

lemma targetsOf_alt:
  "targetsOf i s = length (filter (\<lambda>j. j = i) (concat (map (\<lambda>cell. map eventIndex (circles cell)) (cells s))))"
  by (simp only: targetsOf_def count_eventIndex)

lemma targetsOf_handleCellPress [simp]: "targetsOf i (handleCellPress k now s) = targetsOf i s"
  by (simp add: targetsOf_alt handleCellPress_def comp_def eventIndex_pressCell)

lemma createdAt_budget:
  assumes "distinct (map index (cells s))"
  shows "createdAt tr i ev s + (if i \<in> set (spawnedIndices (runStep tr ev s)) then 0 else 1)
         \<le> (if i \<in> set (spawnedIndices s) then 0 else 1)"
proof (cases ev)
  case (Frame vp nowSpawn now)
  from spawnFromTrack_budget[OF assms, of i vp tr nowSpawn]
    fired_mono_spawnFromTrack[of s vp tr nowSpawn]
  show ?thesis by (auto simp: Frame split: if_splits)
next
  case (Press k now)
  then show ?thesis by simp
qed

lemma created_budget:
  "distinct (map index (cells s)) \<Longrightarrow>
   created tr i es s + (if i \<in> set (spawnedIndices (run tr es s)) then 0 else 1)
     \<le> (if i \<in> set (spawnedIndices s) then 0 else 1)"
proof (induction es arbitrary: s)
  case Nil
  show ?case by (simp add: run_def)
next
  case (Cons ev es)
  have d: "distinct (map index (cells (runStep tr ev s)))" using Cons.prems by simp
  from Cons.IH[OF d] createdAt_budget[OF Cons.prems, of tr i ev]
  show ?case by (simp add: run_def split: if_splits)
qed

lemma targetsOf_fold_other:
  "\<forall>p\<in>set ps. fst p = i \<longrightarrow> invalidCell (snd p) \<Longrightarrow>
   targetsOf i (fold (spawnItem vp now e) ps s) = targetsOf i s"
proof (induction ps arbitrary: s)
  case Nil
  show ?case by simp
next
  case (Cons p ps)
  obtain idx item where p: "p = (idx, item)" by (cases p)
  with Cons.prems have "idx \<noteq> i \<or> invalidCell item" by auto
  then have "targetsOf i (spawnItem vp now e p s) = targetsOf i s"
    unfolding p by (rule targetsOf_spawnItem_other)
  with Cons show ?case by simp
qed

lemma targetsOf_spawnFromTrack_invalid:
  assumes "i < length tr \<longrightarrow> invalidCell (tr ! i)"
  shows "targetsOf i (spawnFromTrack vp tr now s) = targetsOf i s"
proof -
  have "\<forall>p\<in>set (enumerate 0 tr). fst p = i \<longrightarrow> invalidCell (snd p)"
    using assms by (auto simp: in_set_enumerate_eq)
  then show ?thesis
    by (simp add: spawnFromTrack_def targetsOf_fold_other split: option.splits)
qed

lemma created_invalid:
  assumes "i < length tr \<longrightarrow> invalidCell (tr ! i)"
  shows "created tr i es s = 0"
proof (induction es arbitrary: s)
  case Nil
  show ?case by simp
next
  case (Cons ev es)
  have "createdAt tr i ev s = 0"
    by (cases ev) (simp_all add: targetsOf_spawnFromTrack_invalid[OF assms])
  with Cons show ?case by simp
qed

lemma fired_extends_spawnFromTrack:
  "\<exists>new. spawnedIndices (spawnFromTrack vp tr now s) = spawnedIndices s @ new
     \<and> (distinct (spawnedIndices s) \<longrightarrow> distinct (spawnedIndices s @ new))"
  by (auto simp: spawnedIndices_spawnFromTrack split: option.splits bool.splits)

lemma fired_extends_runStep:
  "\<exists>new. spawnedIndices (runStep tr ev s) = spawnedIndices s @ new
     \<and> (distinct (spawnedIndices s) \<longrightarrow> distinct (spawnedIndices s @ new))"
  using fired_extends_spawnFromTrack by (cases ev) simp_all

lemma fired_extends_run:
  "\<exists>new. spawnedIndices (run tr es s) = spawnedIndices s @ new
     \<and> (distinct (spawnedIndices s) \<longrightarrow> distinct (spawnedIndices s @ new))"
proof (induction es arbitrary: s)
  case Nil
  show ?case by (simp add: run_def)
next
  case (Cons ev es)
  from fired_extends_runStep[of tr ev s] obtain n1 where
    n1: "spawnedIndices (runStep tr ev s) = spawnedIndices s @ n1"
      "distinct (spawnedIndices s) \<longrightarrow> distinct (spawnedIndices s @ n1)" by blast
  from Cons.IH[of "runStep tr ev s"] obtain n2 where
    n2: "spawnedIndices (run tr es (runStep tr ev s)) = spawnedIndices (runStep tr ev s) @ n2"
      "distinct (spawnedIndices (runStep tr ev s)) \<longrightarrow> distinct (spawnedIndices (runStep tr ev s) @ n2)"
    by blast
  have "run tr (ev # es) s = run tr es (runStep tr ev s)" by (simp add: run_def)
  with n1 n2 show ?case
    by (intro exI[of _ "n1 @ n2"]) simp
qed

subsection \<open>Scheduler: the claims\<close>

text \<open>
  C3. The fired-set test comes first: for an index already fired, the per-event step returns
  the session as it is, whatever the item, its cell index and the time. Over any run of
  frames and presses, in any order of clock readings, the fired list only grows at its end
  and stays free of duplicates, and the number of targets ever created for a track index is
  at most one, and zero if the index was fired before (cells have distinct indices in every
  reachable state).
\<close>

theorem event_fires_at_most_once:
  "(idx \<in> set (spawnedIndices s) \<longrightarrow> spawnItem vp now e (idx, item) s = s)
   \<and> (\<exists>new. spawnedIndices (run tr es s) = spawnedIndices s @ new
         \<and> (distinct (spawnedIndices s) \<longrightarrow> distinct (spawnedIndices s @ new)))
   \<and> (distinct (map index (cells s)) \<longrightarrow>
         created tr i es s \<le> 1 \<and> (i \<in> set (spawnedIndices s) \<longrightarrow> created tr i es s = 0))"
proof (intro conjI impI)
  assume "idx \<in> set (spawnedIndices s)"
  then show "spawnItem vp now e (idx, item) s = s" by (rule spawnItem_fired)
next
  show "\<exists>new. spawnedIndices (run tr es s) = spawnedIndices s @ new
         \<and> (distinct (spawnedIndices s) \<longrightarrow> distinct (spawnedIndices s @ new))"
    by (rule fired_extends_run)
next
  assume "distinct (map index (cells s))"
  from created_budget[OF this, of tr i es] show "created tr i es s \<le> 1"
    by (simp split: if_splits)
next
  assume "distinct (map index (cells s))" "i \<in> set (spawnedIndices s)"
  with created_budget[of s tr i es] show "created tr i es s = 0"
    by (simp split: if_splits)
qed

theorem event_fires_at_most_once_witness:
  "0 \<in> set (spawnedIndices firstFrame)
   \<and> spawnItem plainViewport 16 16 (0, \<lparr>cellIndex_t = 4, spawnTime = 0\<rparr>) firstFrame = firstFrame
   \<and> distinct (map index (cells (startTrack 0 initialSession)))
   \<and> created singleEventTrack 0
        [Frame plainViewport 0 0, Frame plainViewport 16 16, Press 3 1000, Frame plainViewport 1100 1100,
         Frame plainViewport 1116 1116]
        (startTrack 0 initialSession) = 1
   \<and> created singleEventTrack 0 [Frame plainViewport 16 16, Frame plainViewport 1500 1500] firstFrame = 0"
proof -
  have a: "0 \<in> set (spawnedIndices firstFrame)" by code_simp
  have d: "distinct (map index (cells (startTrack 0 initialSession)))" by code_simp
  have d': "distinct (map index (cells firstFrame))" by code_simp
  have g: "1 \<le> created singleEventTrack 0
        [Frame plainViewport 0 0, Frame plainViewport 16 16, Press 3 1000, Frame plainViewport 1100 1100,
         Frame plainViewport 1116 1116]
        (startTrack 0 initialSession)" by code_simp
  note th = event_fires_at_most_once[where idx = 0 and i = 0 and tr = singleEventTrack]
  from th[of firstFrame] a
  have "spawnItem plainViewport 16 16 (0, \<lparr>cellIndex_t = 4, spawnTime = 0\<rparr>) firstFrame = firstFrame"
    by blast
  moreover from th[of "startTrack 0 initialSession"] d g
  have "created singleEventTrack 0
        [Frame plainViewport 0 0, Frame plainViewport 16 16, Press 3 1000, Frame plainViewport 1100 1100,
         Frame plainViewport 1116 1116]
        (startTrack 0 initialSession) = 1"
    by (metis le_antisym)
  moreover from th[of firstFrame] a d'
  have "created singleEventTrack 0 [Frame plainViewport 16 16, Frame plainViewport 1500 1500] firstFrame = 0"
    by blast
  ultimately show ?thesis using a d by blast
qed

lemma fired_first_append_due:
  assumes "fired_first tr fs"
  shows "fired_first tr
           (fs @ filter (\<lambda>j. j \<notin> set fs \<and> spawnTime (tr ! j) - 10 \<le> e) [0..<length tr])"
  unfolding fired_first_def
proof (intro ballI allI impI)
  fix j k
  assume j: "j \<in> set (fs @ filter (\<lambda>j. j \<notin> set fs \<and> spawnTime (tr ! j) - 10 \<le> e) [0..<length tr])"
    and k: "k < length tr"
      "k \<notin> set (fs @ filter (\<lambda>j. j \<notin> set fs \<and> spawnTime (tr ! j) - 10 \<le> e) [0..<length tr])"
  show "spawnTime (tr ! j) \<le> spawnTime (tr ! k)"
  proof (cases "j \<in> set fs")
    case True
    with k assms show ?thesis by (auto simp: fired_first_def)
  next
    case False
    with j k have "spawnTime (tr ! j) - 10 \<le> e" and "\<not> spawnTime (tr ! k) - 10 \<le> e" by auto
    then show ?thesis by linarith
  qed
qed

lemma fired_first_runStep:
  assumes "fired_first tr (spawnedIndices s)"
  shows "fired_first tr (spawnedIndices (runStep tr ev s))"
proof (cases ev)
  case (Frame vp nowSpawn now)
  show ?thesis
    using assms fired_first_append_due[OF assms]
    by (auto simp: Frame spawnedIndices_spawnFromTrack split: option.splits bool.splits)
next
  case (Press k now)
  with assms show ?thesis by simp
qed

lemma fired_first_run:
  "fired_first tr (spawnedIndices s) \<Longrightarrow> fired_first tr (spawnedIndices (run tr es s))"
  unfolding run_def
  by (induction es arbitrary: s) (simp_all add: fired_first_runStep)

lemma cells_fold_spawnItem:
  "cells (fold (spawnItem vp now e) (enumerate n xs) s)
     = map (\<lambda>cell. cell\<lparr>circles := circles cell
              @ map (\<lambda>j. newCircle vp now (xs ! (j - n)) j)
                  (filter (\<lambda>j. \<not> invalidCell (xs ! (j - n)) \<and> cellIndex_t (xs ! (j - n)) = index cell)
                     (filter (\<lambda>j. j \<notin> set (spawnedIndices s) \<and> spawnTime (xs ! (j - n)) - 10 \<le> e)
                        [n..<n + length xs]))\<rparr>)
         (cells s)"
proof (induction xs arbitrary: n s)
  case Nil
  show ?case by (simp add: map_idI)
next
  case (Cons x xs)
  let ?s1 = "spawnItem vp now e (n, x) s"
  define L where "L = [Suc n..<Suc n + length xs]"
  define fire where "fire \<longleftrightarrow> n \<notin> set (spawnedIndices s) \<and> spawnTime x - 10 \<le> e"
  have f1: "spawnedIndices ?s1 = spawnedIndices s @ (if fire then [n] else [])"
    unfolding fire_def by (rule spawnedIndices_spawnItem)
  have c1: "cells ?s1 = (if fire \<and> \<not> invalidCell x
        then map (\<lambda>cell. if index cell = cellIndex_t x
                    then cell\<lparr>circles := circles cell @ [newCircle vp now x n]\<rparr> else cell) (cells s)
        else cells s)"
    unfolding fire_def by (simp add: cells_spawnItem)
  have "n < n + length (x # xs)" by simp
  from upt_conv_Cons[OF this]
  have up: "[n..<n + length (x # xs)] = n # L"
    by (simp add: L_def)
  have due: "filter (\<lambda>j. j \<notin> set (spawnedIndices ?s1) \<and> spawnTime (xs ! (j - Suc n)) - 10 \<le> e) L
            = filter (\<lambda>j. j \<notin> set (spawnedIndices s) \<and> spawnTime ((x # xs) ! (j - n)) - 10 \<le> e) L"
    unfolding L_def by (rule filter_cong) (auto simp: f1 nth_Cons' split: if_splits)
  have sel: "map (\<lambda>j. newCircle vp now (xs ! (j - Suc n)) j)
               (filter (\<lambda>j. \<not> invalidCell (xs ! (j - Suc n)) \<and> cellIndex_t (xs ! (j - Suc n)) = ci) D)
           = map (\<lambda>j. newCircle vp now ((x # xs) ! (j - n)) j)
               (filter (\<lambda>j. \<not> invalidCell ((x # xs) ! (j - n)) \<and> cellIndex_t ((x # xs) ! (j - n)) = ci) D)"
    if "set D \<subseteq> set L" for D ci
  proof -
    have sh: "(x # xs) ! (j - n) = xs ! (j - Suc n)" if "j \<in> set D" for j
      using that \<open>set D \<subseteq> set L\<close> by (auto simp: L_def nth_Cons')
    have fl: "filter (\<lambda>j. \<not> invalidCell (xs ! (j - Suc n)) \<and> cellIndex_t (xs ! (j - Suc n)) = ci) D
        = filter (\<lambda>j. \<not> invalidCell ((x # xs) ! (j - n)) \<and> cellIndex_t ((x # xs) ! (j - n)) = ci) D"
      by (rule filter_cong) (simp_all add: sh)
    show ?thesis
      unfolding fl by (rule map_cong) (auto simp: sh)
  qed
  let ?D = "filter (\<lambda>j. j \<notin> set (spawnedIndices s) \<and> spawnTime ((x # xs) ! (j - n)) - 10 \<le> e) L"
  have DL: "set ?D \<subseteq> set L" by auto
  have "cells (fold (spawnItem vp now e) (enumerate n (x # xs)) s)
      = cells (fold (spawnItem vp now e) (enumerate (Suc n) xs) ?s1)"
    by simp
  also have "\<dots> = map (\<lambda>cell. cell\<lparr>circles := circles cell
              @ map (\<lambda>j. newCircle vp now (xs ! (j - Suc n)) j)
                  (filter (\<lambda>j. \<not> invalidCell (xs ! (j - Suc n)) \<and> cellIndex_t (xs ! (j - Suc n)) = index cell)
                     (filter (\<lambda>j. j \<notin> set (spawnedIndices ?s1) \<and> spawnTime (xs ! (j - Suc n)) - 10 \<le> e) L))\<rparr>)
         (cells ?s1)"
    unfolding L_def by (rule Cons.IH)
  also have "\<dots> = map (\<lambda>cell. cell\<lparr>circles := circles cell
              @ map (\<lambda>j. newCircle vp now ((x # xs) ! (j - n)) j)
                  (filter (\<lambda>j. \<not> invalidCell ((x # xs) ! (j - n)) \<and> cellIndex_t ((x # xs) ! (j - n)) = index cell)
                     ?D)\<rparr>)
         (cells ?s1)"
    by (simp only: due sel[OF DL])
  also have "\<dots> = map (\<lambda>cell. cell\<lparr>circles := circles cell
              @ map (\<lambda>j. newCircle vp now ((x # xs) ! (j - n)) j)
                  (filter (\<lambda>j. \<not> invalidCell ((x # xs) ! (j - n)) \<and> cellIndex_t ((x # xs) ! (j - n)) = index cell)
                     (filter (\<lambda>j. j \<notin> set (spawnedIndices s) \<and> spawnTime ((x # xs) ! (j - n)) - 10 \<le> e)
                        (n # L)))\<rparr>)
         (cells s)"
    unfolding c1 by (auto simp: fire_def)
  finally show ?case unfolding up .
qed

lemma cells_spawnFromTrack:
  assumes "isPlaying s" "trackStartTime s = Some t0"
  shows "cells (spawnFromTrack vp tr now s)
     = map (\<lambda>cell. cell\<lparr>circles := circles cell
              @ map (\<lambda>j. newCircle vp now (tr ! j) j)
                  (filter (\<lambda>j. \<not> invalidCell (tr ! j) \<and> cellIndex_t (tr ! j) = index cell)
                     (filter (\<lambda>j. j \<notin> set (spawnedIndices s) \<and> spawnTime (tr ! j) - 10 \<le> now - t0)
                        [0..<length tr]))\<rparr>)
         (cells s)"
  using assms cells_fold_spawnItem[of vp now "now - t0" 0 tr s]
  by (simp add: spawnFromTrack_def)

theorem unsorted_track_fires_out_of_order_counterexample:
  "firedOffsets unsortedTrack (run unsortedTrack [Frame plainViewport 0 0] (startTrack 0 initialSession)) = [5, 0]
   \<and> \<not> sorted (firedOffsets unsortedTrack
                  (run unsortedTrack [Frame plainViewport 0 0] (startTrack 0 initialSession)))
   \<and> map id_c (circles (cells (run unsortedTrack [Frame plainViewport 0 0] (startTrack 0 initialSession)) ! 3))
       = [(3, 5, 0), (3, 0, 1)]"
  by code_simp

text \<open>
  C8 (amended). A frame fires the due events in track order: it appends to the fired list
  the unfired indices whose offset is at most the elapsed time plus 10 ms, in increasing
  index, and appends to each cell the targets of those of them that name it, in the same
  order. The scheduler does not sort. For every track, over any run started with an empty
  fired set, no unfired event has a smaller offset than a fired one, so events fired in
  different frames are fired in offset order. For a track sorted by offset, as the producer
  \<open>generateSampleTrack\<close> returns it, the offsets of all fired events are non-decreasing
  in firing order.
\<close>

theorem sorted_track_fires_in_offset_order:
  "(isPlaying s \<and> trackStartTime s = Some t0 \<longrightarrow>
       spawnedIndices (spawnFromTrack vp tr now s)
         = spawnedIndices s
           @ filter (\<lambda>j. j \<notin> set (spawnedIndices s) \<and> spawnTime (tr ! j) - 10 \<le> now - t0) [0..<length tr]
     \<and> cells (spawnFromTrack vp tr now s)
         = map (\<lambda>cell. cell\<lparr>circles := circles cell
                  @ map (\<lambda>j. newCircle vp now (tr ! j) j)
                      (filter (\<lambda>j. \<not> invalidCell (tr ! j) \<and> cellIndex_t (tr ! j) = index cell)
                         (filter (\<lambda>j. j \<notin> set (spawnedIndices s) \<and> spawnTime (tr ! j) - 10 \<le> now - t0)
                            [0..<length tr]))\<rparr>)
             (cells s))
   \<and> (spawnedIndices s = [] \<longrightarrow>
        (\<forall>j\<in>set (spawnedIndices (run tr es s)). \<forall>k<length tr.
            k \<notin> set (spawnedIndices (run tr es s)) \<longrightarrow> spawnTime (tr ! j) \<le> spawnTime (tr ! k)))
   \<and> (sorted (map spawnTime tr) \<and> spawnedIndices s = [] \<longrightarrow> sorted (firedOffsets tr (run tr es s)))"
proof (intro conjI impI)
  assume "isPlaying s \<and> trackStartTime s = Some t0"
  then show "spawnedIndices (spawnFromTrack vp tr now s)
         = spawnedIndices s
           @ filter (\<lambda>j. j \<notin> set (spawnedIndices s) \<and> spawnTime (tr ! j) - 10 \<le> now - t0) [0..<length tr]"
    by (simp add: spawnedIndices_spawnFromTrack)
next
  assume "isPlaying s \<and> trackStartTime s = Some t0"
  then show "cells (spawnFromTrack vp tr now s)
         = map (\<lambda>cell. cell\<lparr>circles := circles cell
                  @ map (\<lambda>j. newCircle vp now (tr ! j) j)
                      (filter (\<lambda>j. \<not> invalidCell (tr ! j) \<and> cellIndex_t (tr ! j) = index cell)
                         (filter (\<lambda>j. j \<notin> set (spawnedIndices s) \<and> spawnTime (tr ! j) - 10 \<le> now - t0)
                            [0..<length tr]))\<rparr>)
             (cells s)"
    by (intro cells_spawnFromTrack) simp_all
next
  assume "spawnedIndices s = []"
  then have "fired_first tr (spawnedIndices s)" by (simp add: fired_first_def)
  then have "fired_first tr (spawnedIndices (run tr es s))" by (rule fired_first_run)
  then show "\<forall>j\<in>set (spawnedIndices (run tr es s)). \<forall>k<length tr.
            k \<notin> set (spawnedIndices (run tr es s)) \<longrightarrow> spawnTime (tr ! j) \<le> spawnTime (tr ! k)"
    by (simp add: fired_first_def)
next
  assume a: "sorted (map spawnTime tr) \<and> spawnedIndices s = []"
  then have "fired_in_order tr (spawnedIndices s)" by (simp add: fired_in_order_def)
  with a have "fired_in_order tr (spawnedIndices (run tr es s))"
    by (blast intro: fired_in_order_run)
  then show "sorted (firedOffsets tr (run tr es s))"
    by (simp add: fired_in_order_def firedOffsets_def)
qed

theorem sorted_track_fires_in_offset_order_witness:
  "sorted (map spawnTime overlapTrack)
   \<and> spawnedIndices (startTrack 0 initialSession) = []
   \<and> firedOffsets overlapTrack
        (run overlapTrack [Frame plainViewport 0 0, Frame plainViewport 300 300] (startTrack 0 initialSession))
       = [0, 300]
   \<and> sorted (firedOffsets overlapTrack
        (run overlapTrack [Frame plainViewport 0 0, Frame plainViewport 300 300] (startTrack 0 initialSession)))"
proof -
  have a: "sorted (map spawnTime overlapTrack)" by code_simp
  have b: "spawnedIndices (startTrack 0 initialSession) = []" by code_simp
  have c: "firedOffsets overlapTrack
        (run overlapTrack [Frame plainViewport 0 0, Frame plainViewport 300 300] (startTrack 0 initialSession))
       = [0, 300]" by code_simp
  from sorted_track_fires_in_offset_order[of "startTrack 0 initialSession" _ _ overlapTrack] a b
  have "sorted (firedOffsets overlapTrack
        (run overlapTrack [Frame plainViewport 0 0, Frame plainViewport 300 300] (startTrack 0 initialSession)))"
    by blast
  with a b c show ?thesis by blast
qed

text \<open>
  C9. An event whose cell index is the centre (4), negative, or 9 or more never changes the
  cells. When it is due and not yet fired, the step only appends its index to the fired
  list, after which the step for that index does nothing more; no target is ever created for
  it in any run. The scheduler does fire it: while a run is playing, \<open>spawnFromTrack\<close>, and
  so a frame, puts the index of every due, unfired invalid event of the track into the fired
  list without creating a target for it, and leaves the cells as they are when every event
  it fires is invalid. The step returns a session in every case: there is no error path.
\<close>

theorem invalid_cell_event_is_consumed_without_target:
  assumes "invalidCell item"
  shows "cells (spawnItem vp now e (idx, item) s) = cells s
     \<and> (idx \<notin> set (spawnedIndices s) \<and> spawnTime item - 10 \<le> e \<longrightarrow>
          spawnItem vp now e (idx, item) s = s\<lparr>spawnedIndices := spawnedIndices s @ [idx]\<rparr>
        \<and> spawnItem vp' now' e' (idx, item') (spawnItem vp now e (idx, item) s)
            = spawnItem vp now e (idx, item) s)
     \<and> (\<forall>tr es i. i < length tr \<and> tr ! i = item \<longrightarrow> created tr i es s = 0)
     \<and> (\<forall>tr t0 i. isPlaying s \<and> trackStartTime s = Some t0 \<and> i < length tr \<and> tr ! i = item
            \<and> i \<notin> set (spawnedIndices s) \<and> spawnTime item - 10 \<le> now - t0 \<longrightarrow>
              i \<in> set (spawnedIndices (spawnFromTrack vp tr now s))
            \<and> i \<in> set (spawnedIndices (animate vp tr now now' s))
            \<and> targetsOf i (spawnFromTrack vp tr now s) = targetsOf i s
            \<and> spawnItem vp' now' e' (i, item') (animate vp tr now now' s) = animate vp tr now now' s)
     \<and> (\<forall>tr t0. isPlaying s \<and> trackStartTime s = Some t0
            \<and> (\<forall>j<length tr. j \<notin> set (spawnedIndices s) \<and> spawnTime (tr ! j) - 10 \<le> now - t0
                   \<longrightarrow> invalidCell (tr ! j)) \<longrightarrow>
              cells (spawnFromTrack vp tr now s) = cells s
            \<and> spawnedIndices (spawnFromTrack vp tr now s)
                = spawnedIndices s
                  @ filter (\<lambda>j. j \<notin> set (spawnedIndices s) \<and> spawnTime (tr ! j) - 10 \<le> now - t0)
                      [0..<length tr])"
proof -
  have a: "cells (spawnItem vp now e (idx, item) s) = cells s"
    using assms by (simp add: cells_spawnItem)
  have b: "spawnItem vp now e (idx, item) s = s\<lparr>spawnedIndices := spawnedIndices s @ [idx]\<rparr>
        \<and> spawnItem vp' now' e' (idx, item') (spawnItem vp now e (idx, item) s)
            = spawnItem vp now e (idx, item) s"
    if "idx \<notin> set (spawnedIndices s) \<and> spawnTime item - 10 \<le> e"
  proof -
    from that have c: "spawnItem vp now e (idx, item) s = s\<lparr>spawnedIndices := spawnedIndices s @ [idx]\<rparr>"
      using assms by (simp add: spawnItem_def invalidCell_def)
    have "spawnItem vp' now' e' (idx, item') (spawnItem vp now e (idx, item) s)
            = spawnItem vp now e (idx, item) s"
      by (rule spawnItem_fired) (simp add: c)
    with c show ?thesis by blast
  qed
  have c: "created tr i es s = 0" if "i < length tr \<and> tr ! i = item" for tr es i
    using that assms by (intro created_invalid) simp
  have d: "i \<in> set (spawnedIndices (spawnFromTrack vp tr now s))
            \<and> i \<in> set (spawnedIndices (animate vp tr now now' s))
            \<and> targetsOf i (spawnFromTrack vp tr now s) = targetsOf i s
            \<and> spawnItem vp' now' e' (i, item') (animate vp tr now now' s) = animate vp tr now now' s"
    if h: "isPlaying s \<and> trackStartTime s = Some t0 \<and> i < length tr \<and> tr ! i = item
            \<and> i \<notin> set (spawnedIndices s) \<and> spawnTime item - 10 \<le> now - t0" for tr t0 i
  proof -
    from h have f: "i \<in> set (spawnedIndices (spawnFromTrack vp tr now s))"
      by (simp add: spawnedIndices_spawnFromTrack)
    then have g: "i \<in> set (spawnedIndices (animate vp tr now now' s))" by simp
    from h assms have "targetsOf i (spawnFromTrack vp tr now s) = targetsOf i s"
      by (intro targetsOf_spawnFromTrack_invalid) simp
    moreover from g have "spawnItem vp' now' e' (i, item') (animate vp tr now now' s)
        = animate vp tr now now' s"
      by (rule spawnItem_fired)
    ultimately show ?thesis using f g by blast
  qed
  have e: "cells (spawnFromTrack vp tr now s) = cells s
            \<and> spawnedIndices (spawnFromTrack vp tr now s)
                = spawnedIndices s
                  @ filter (\<lambda>j. j \<notin> set (spawnedIndices s) \<and> spawnTime (tr ! j) - 10 \<le> now - t0)
                      [0..<length tr]"
    if h: "isPlaying s \<and> trackStartTime s = Some t0
            \<and> (\<forall>j<length tr. j \<notin> set (spawnedIndices s) \<and> spawnTime (tr ! j) - 10 \<le> now - t0
                   \<longrightarrow> invalidCell (tr ! j))" for tr t0
  proof -
    have none: "filter (\<lambda>j. \<not> invalidCell (tr ! j) \<and> cellIndex_t (tr ! j) = ci)
              (filter (\<lambda>j. j \<notin> set (spawnedIndices s) \<and> spawnTime (tr ! j) - 10 \<le> now - t0)
                 [0..<length tr]) = []" for ci
      using h by (auto simp: filter_empty_conv)
    from h have pl: "isPlaying s" "trackStartTime s = Some t0" by simp_all
    have "cells (spawnFromTrack vp tr now s)
        = map (\<lambda>cell. cell\<lparr>circles := circles cell @ map (\<lambda>j. newCircle vp now (tr ! j) j) []\<rparr>) (cells s)"
      by (simp only: cells_spawnFromTrack[OF pl] none)
    then have "cells (spawnFromTrack vp tr now s) = cells s"
      by (simp add: map_idI)
    moreover from h have "spawnedIndices (spawnFromTrack vp tr now s)
                = spawnedIndices s
                  @ filter (\<lambda>j. j \<notin> set (spawnedIndices s) \<and> spawnTime (tr ! j) - 10 \<le> now - t0)
                      [0..<length tr]"
      by (simp add: spawnedIndices_spawnFromTrack)
    ultimately show ?thesis by blast
  qed
  from a b c d e show ?thesis by blast
qed

theorem invalid_cell_event_is_consumed_without_target_witness:
  "invalidCell \<lparr>cellIndex_t = 4, spawnTime = 0\<rparr>
   \<and> invalidCell \<lparr>cellIndex_t = 9, spawnTime = 0\<rparr>
   \<and> invalidCell \<lparr>cellIndex_t = - 1, spawnTime = 0\<rparr>
   \<and> spawnItem plainViewport 0 0 (0, \<lparr>cellIndex_t = 4, spawnTime = 0\<rparr>) (startTrack 0 initialSession)
       = (startTrack 0 initialSession)\<lparr>spawnedIndices := [0]\<rparr>
   \<and> cells (spawnItem plainViewport 0 0 (7, \<lparr>cellIndex_t = 9, spawnTime = 0\<rparr>) firstFrame) = cells firstFrame
   \<and> created [\<lparr>cellIndex_t = - 1, spawnTime = 0\<rparr>] 0 [Frame plainViewport 0 0, Frame plainViewport 16 16]
        (startTrack 0 initialSession) = 0
   \<and> 0 \<in> set (spawnedIndices (spawnFromTrack plainViewport centreTrack 0 (startTrack 0 initialSession)))
   \<and> 0 \<in> set (spawnedIndices (animate plainViewport centreTrack 0 0 (startTrack 0 initialSession)))
   \<and> spawnedIndices (animate plainViewport centreTrack 0 0 (startTrack 0 initialSession)) = [0]
   \<and> cells (spawnFromTrack plainViewport centreTrack 0 (startTrack 0 initialSession))
       = cells (startTrack 0 initialSession)
   \<and> cells (animate plainViewport centreTrack 0 0 (startTrack 0 initialSession)) = emptyGrid
   \<and> animate plainViewport centreTrack 16 16 (animate plainViewport centreTrack 0 0 (startTrack 0 initialSession))
       = animate plainViewport centreTrack 0 0 (startTrack 0 initialSession)"
proof -
  let ?s0 = "startTrack 0 initialSession"
  let ?centre = "\<lparr>cellIndex_t = 4, spawnTime = 0\<rparr>"
  have a: "invalidCell ?centre" by code_simp
  have b: "invalidCell \<lparr>cellIndex_t = 9, spawnTime = 0\<rparr>" by code_simp
  have c: "invalidCell \<lparr>cellIndex_t = - 1, spawnTime = 0\<rparr>" by code_simp
  have f: "0 \<notin> set (spawnedIndices ?s0)" by code_simp
  note th = invalid_cell_event_is_consumed_without_target
  from th[OF a, where vp = plainViewport and now = 0 and e = 0 and idx = 0 and s = ?s0] f
  have "spawnItem plainViewport 0 0 (0, ?centre) ?s0 = ?s0\<lparr>spawnedIndices := spawnedIndices ?s0 @ [0]\<rparr>"
    by simp
  then have 1: "spawnItem plainViewport 0 0 (0, ?centre) ?s0 = ?s0\<lparr>spawnedIndices := [0]\<rparr>"
    by (simp add: startTrack_def)
  from th[OF b, where vp = plainViewport and now = 0 and e = 0 and idx = 7 and s = firstFrame]
  have 2: "cells (spawnItem plainViewport 0 0 (7, \<lparr>cellIndex_t = 9, spawnTime = 0\<rparr>) firstFrame) = cells firstFrame"
    by blast
  have t: "(0::nat) < length [\<lparr>cellIndex_t = - 1, spawnTime = 0\<rparr>]
      \<and> [\<lparr>cellIndex_t = - 1, spawnTime = 0\<rparr>] ! 0 = \<lparr>cellIndex_t = - 1, spawnTime = 0\<rparr>"
    by simp
  from th[OF c, where vp = plainViewport and now = 0 and e = 0 and idx = 0 and s = ?s0] t
  have 3: "created [\<lparr>cellIndex_t = - 1, spawnTime = 0\<rparr>] 0 [Frame plainViewport 0 0, Frame plainViewport 16 16]
        ?s0 = 0"
    by blast
  have h: "isPlaying ?s0 \<and> trackStartTime ?s0 = Some 0 \<and> (0::nat) < length centreTrack
      \<and> centreTrack ! 0 = ?centre \<and> 0 \<notin> set (spawnedIndices ?s0) \<and> spawnTime ?centre - 10 \<le> 0 - 0"
    by (simp add: startTrack_def centreTrack_def)
  from th[OF a, where vp = plainViewport and now = 0 and now' = 0 and s = ?s0] h
  have 4: "0 \<in> set (spawnedIndices (spawnFromTrack plainViewport centreTrack 0 ?s0))
      \<and> 0 \<in> set (spawnedIndices (animate plainViewport centreTrack 0 0 ?s0))"
    by blast
  have k: "isPlaying ?s0 \<and> trackStartTime ?s0 = Some 0
      \<and> (\<forall>j<length centreTrack. j \<notin> set (spawnedIndices ?s0) \<and> spawnTime (centreTrack ! j) - 10 \<le> 0 - 0
            \<longrightarrow> invalidCell (centreTrack ! j))"
    using a by (simp add: startTrack_def centreTrack_def)
  from th[OF a, where vp = plainViewport and now = 0 and s = ?s0] k
  have 5: "cells (spawnFromTrack plainViewport centreTrack 0 ?s0) = cells ?s0"
    by blast
  have 6: "spawnedIndices (animate plainViewport centreTrack 0 0 ?s0) = [0]" by code_simp
  have 7: "cells (animate plainViewport centreTrack 0 0 ?s0) = emptyGrid" by code_simp
  have 8: "animate plainViewport centreTrack 16 16 (animate plainViewport centreTrack 0 0 ?s0)
       = animate plainViewport centreTrack 0 0 ?s0" by code_simp
  from a b c 1 2 3 4 5 6 7 8 show ?thesis by (intro conjI) blast+
qed

subsection \<open>Lifecycle: miss and eviction times\<close>

lemma firstFrame_eval:
  "firstFrame = \<lparr>cells =
    [\<lparr>index = 0, circles = []\<rparr>, \<lparr>index = 1, circles = []\<rparr>, \<lparr>index = 2, circles = []\<rparr>,
     \<lparr>index = 3, circles = [newCircle plainViewport 0 \<lparr>cellIndex_t = 3, spawnTime = 0\<rparr> 0]\<rparr>,
     \<lparr>index = 4, circles = []\<rparr>, \<lparr>index = 5, circles = []\<rparr>,
     \<lparr>index = 6, circles = []\<rparr>, \<lparr>index = 7, circles = []\<rparr>,
     \<lparr>index = 8, circles = []\<rparr>],
    isPlaying = True, trackStartTime = Some 0, spawnedIndices = [0]\<rparr>"
  by code_simp

lemma newCircle_fields:
  "hitStatus (newCircle vp T item idx) = None"
  "hitTime (newCircle vp T item idx) = None"
  "hitRating (newCircle vp T item idx) = None"
  "size_c (newCircle vp T item idx) = 0"
  "hitWindowEnd (newCircle vp T item idx) = T + 1200"
  "hitWindowStart (newCircle vp T item idx) = T + 850"
  "perfectTime (newCircle vp T item idx) = T + 1000"
  by (simp_all add: newCircle_def Let_def GROWTH_DURATION_def HIT_WINDOW_DURATION_def HIT_WINDOW_START_def)

lemma advance_unresolved:
  assumes "hitStatus c = None"
  shows "(now > hitWindowEnd c + 50 \<longrightarrow>
            hitStatus (advanceCircle now c) = Some Miss \<and> hitTime (advanceCircle now c) = Some now
          \<and> hitRating (advanceCircle now c) = hitRating c)
       \<and> (now \<le> hitWindowEnd c + 50 \<longrightarrow>
            hitStatus (advanceCircle now c) = None \<and> hitTime (advanceCircle now c) = hitTime c
          \<and> hitRating (advanceCircle now c) = hitRating c)"
  using assms by (simp add: advanceCircle_def Let_def)

lemma keep_resolved:
  "hitStatus c \<noteq> None \<Longrightarrow> hitTime c = Some h \<Longrightarrow>
     keepCircle now (advanceCircle now c) \<longleftrightarrow> now - h < HIT_FEEDBACK_DURATION"
  by (simp add: advanceCircle_def keepCircle_def)

lemma spawn_firstFrame: "spawnFromTrack vp singleEventTrack n firstFrame = firstFrame"
  by (simp add: spawnFromTrack_def firstFrame_eval singleEventTrack_def enumerate_eq_zip spawnItem_def)

lemma frame_after_first:
  "circles (cells (animate vp singleEventTrack n n' firstFrame) ! 3)
     = filter (keepCircle n') [advanceCircle n' (newCircle plainViewport 0 \<lparr>cellIndex_t = 3, spawnTime = 0\<rparr> 0)]"
  unfolding animate_def Let_def spawn_firstFrame
  by (simp add: firstFrame_eval advanceCell_def)

lemma scenario_missed:
  assumes "1250 < n1"
  shows "map hitStatus (circles (cells (animate vp singleEventTrack n1 n1 firstFrame) ! 3)) = [Some Miss]"
    and "map hitTime (circles (cells (animate vp singleEventTrack n1 n1 firstFrame) ! 3)) = [Some n1]"
  using assms unfolding frame_after_first
  by (simp_all add: advanceCircle_def newCircle_fields keepCircle_def HIT_FEEDBACK_DURATION_def)

lemma animate_single_fired:
  assumes "spawnedIndices s = [0]"
  shows "animate vp singleEventTrack n n' s = s\<lparr>cells := map (advanceCell n') (cells s)\<rparr>"
proof -
  have "spawnFromTrack vp singleEventTrack n s = s"
    using assms
    by (simp add: spawnFromTrack_def singleEventTrack_def enumerate_eq_zip spawnItem_def split: option.splits)
  then show ?thesis by (simp add: animate_def Let_def)
qed

lemma scenario_evicted:
  assumes "1250 < n1" "n1 + 100 \<le> n2"
  shows "circles (cells (animate vp singleEventTrack n2 n2 (animate vp singleEventTrack n1 n1 firstFrame)) ! 3) = []"
proof -
  have f: "spawnedIndices firstFrame = [0]" by (simp add: firstFrame_eval)
  have a1: "animate vp singleEventTrack n1 n1 firstFrame
      = firstFrame\<lparr>cells := map (advanceCell n1) (cells firstFrame)\<rparr>"
    using f by (rule animate_single_fired)
  have a2: "animate vp singleEventTrack n2 n2 (firstFrame\<lparr>cells := map (advanceCell n1) (cells firstFrame)\<rparr>)
      = firstFrame\<lparr>cells := map (advanceCell n2) (map (advanceCell n1) (cells firstFrame))\<rparr>"
    using f by (simp add: animate_single_fired)
  show ?thesis
    unfolding a1 a2 using assms
    by (simp add: firstFrame_eval advanceCell_def advanceCircle_def newCircle_fields keepCircle_def
        HIT_FEEDBACK_DURATION_def)
qed

lemma scenario_pending:
  assumes "n \<le> 1250"
  shows "map hitStatus (circles (cells (animate vp singleEventTrack n n firstFrame) ! 3)) = [None]"
proof -
  have "currentSize n c \<le> 11 / 10" for c
    using currentSize_le_1[of n c] by simp
  then show ?thesis
    using assms unfolding frame_after_first
    by (simp add: advanceCircle_def newCircle_fields keepCircle_def Let_def)
qed

text \<open>
  C6. An advance at \<open>now\<close> turns an unresolved circle into a miss with hitTime \<open>now\<close>
  exactly when \<open>now\<close> is later than its hitWindowEnd plus 50 ms, and leaves its resolution
  alone otherwise. A resolved circle stays in its cell exactly while less than 100 ms have
  passed since its hitTime. For the single event of cell 3 at offset 0, spawned at time 0
  with the default durations and never pressed: a frame at any time up to 1250 leaves it
  unresolved, a frame after 1250 (1400, say) marks it missed, and a frame 100 ms or more
  after that (1500, say) removes it.
\<close>

theorem miss_after_grace_then_eviction_after_feedback:
  "(hitStatus c = None \<longrightarrow>
      (now > hitWindowEnd c + 50 \<longrightarrow>
          hitStatus (advanceCircle now c) = Some Miss \<and> hitTime (advanceCircle now c) = Some now
        \<and> hitRating (advanceCircle now c) = hitRating c)
    \<and> (now \<le> hitWindowEnd c + 50 \<longrightarrow>
          hitStatus (advanceCircle now c) = None \<and> hitTime (advanceCircle now c) = hitTime c
        \<and> hitRating (advanceCircle now c) = hitRating c))
   \<and> circles (advanceCell now cell) = filter (keepCircle now) (map (advanceCircle now) (circles cell))
   \<and> (hitStatus c \<noteq> None \<and> hitTime c = Some h \<longrightarrow>
        (keepCircle now (advanceCircle now c) \<longleftrightarrow> now - h < HIT_FEEDBACK_DURATION))
   \<and> hitWindowEnd (newCircle vp T item idx) + 50 = T + 1250
   \<and> (n \<le> 1250 \<longrightarrow>
        map hitStatus (circles (cells (animate vp singleEventTrack n n firstFrame) ! 3)) = [None])
   \<and> (1250 < n1 \<and> n1 + 100 \<le> n2 \<longrightarrow>
        map hitStatus (circles (cells (animate vp singleEventTrack n1 n1 firstFrame) ! 3)) = [Some Miss]
      \<and> map hitTime (circles (cells (animate vp singleEventTrack n1 n1 firstFrame) ! 3)) = [Some n1]
      \<and> circles (cells (animate vp singleEventTrack n2 n2 (animate vp singleEventTrack n1 n1 firstFrame)) ! 3) = [])"
proof -
  have a: "hitStatus c = None \<longrightarrow>
      (now > hitWindowEnd c + 50 \<longrightarrow>
          hitStatus (advanceCircle now c) = Some Miss \<and> hitTime (advanceCircle now c) = Some now
        \<and> hitRating (advanceCircle now c) = hitRating c)
    \<and> (now \<le> hitWindowEnd c + 50 \<longrightarrow>
          hitStatus (advanceCircle now c) = None \<and> hitTime (advanceCircle now c) = hitTime c
        \<and> hitRating (advanceCircle now c) = hitRating c)"
    using advance_unresolved[of c now] by blast
  have b: "circles (advanceCell now cell) = filter (keepCircle now) (map (advanceCircle now) (circles cell))"
    by (simp add: advanceCell_def)
  have k: "hitStatus c \<noteq> None \<and> hitTime c = Some h \<longrightarrow>
        (keepCircle now (advanceCircle now c) \<longleftrightarrow> now - h < HIT_FEEDBACK_DURATION)"
    using keep_resolved[of c h now] by blast
  have w: "hitWindowEnd (newCircle vp T item idx) + 50 = T + 1250"
    by (simp add: newCircle_fields)
  from a b k w scenario_pending[of n vp] scenario_missed[of n1 vp] scenario_evicted[of n1 n2 vp]
  show ?thesis by blast
qed

theorem miss_after_grace_then_eviction_after_feedback_witness:
  "map hitStatus (circles (cells (animate plainViewport singleEventTrack 1250 1250 firstFrame) ! 3)) = [None]
   \<and> map hitStatus (circles (cells missedFrame ! 3)) = [Some Miss]
   \<and> map hitTime (circles (cells missedFrame ! 3)) = [Some 1400]
   \<and> circles (cells (animate plainViewport singleEventTrack 1500 1500 missedFrame) ! 3) = []
   \<and> hitStatus (hd (circles (cells missedFrame ! 3))) = Some Miss
   \<and> hitTime (hd (circles (cells missedFrame ! 3))) = Some 1400
   \<and> keepCircle 1499 (advanceCircle 1499 (hd (circles (cells missedFrame ! 3))))
   \<and> \<not> keepCircle 1500 (advanceCircle 1500 (hd (circles (cells missedFrame ! 3))))"
proof -
  let ?c = "hd (circles (cells missedFrame ! 3))"
  note th = miss_after_grace_then_eviction_after_feedback[where vp = plainViewport]
  have c: "hitStatus ?c = Some Miss" "hitTime ?c = Some 1400" by code_simp+
  from th[where n = 1250]
  have 1: "map hitStatus (circles (cells (animate plainViewport singleEventTrack 1250 1250 firstFrame) ! 3)) = [None]"
    by simp
  from th[where ?n1.0 = 1400 and ?n2.0 = 1500]
  have 2: "map hitStatus (circles (cells missedFrame ! 3)) = [Some Miss]
      \<and> map hitTime (circles (cells missedFrame ! 3)) = [Some 1400]
      \<and> circles (cells (animate plainViewport singleEventTrack 1500 1500 missedFrame) ! 3) = []"
    unfolding missedFrame_def by simp
  from th[where c = ?c and h = 1400 and now = 1499] c
  have 3: "keepCircle 1499 (advanceCircle 1499 ?c)"
    by (simp add: HIT_FEEDBACK_DURATION_def)
  from th[where c = ?c and h = 1400 and now = 1500] c
  have 4: "\<not> keepCircle 1500 (advanceCircle 1500 ?c)"
    by (simp add: HIT_FEEDBACK_DURATION_def)
  from 1 2 3 4 c show ?thesis by blast
qed

subsection \<open>Input resolver: signatures and the recorded keys\<close>

lemma length_joinComma_Cons:
  "length (joinComma (x # xs)) = length x + (if xs = [] then 0 else 1 + length (joinComma xs))"
  by (cases xs) simp_all

lemma insort_not_Nil: "insort x xs \<noteq> []"
  by (cases xs) simp_all

lemma length_joinComma_insort:
  "length (joinComma (insort x xs)) = length (joinComma (x # xs))"
proof (induction xs)
  case Nil
  show ?case by simp
next
  case (Cons y ys)
  show ?case
  proof (cases "x \<le> y")
    case True
    then show ?thesis by simp
  next
    case False
    then have "length (joinComma (insort x (y # ys))) = length (joinComma (y # insort x ys))"
      by simp
    also have "\<dots> = length y + (1 + length (joinComma (insort x ys)))"
      by (simp only: length_joinComma_Cons insort_not_Nil if_False)
    also have "\<dots> = length y + (1 + length (joinComma (x # ys)))"
      by (simp only: Cons.IH)
    also have "\<dots> = length (joinComma (x # y # ys))"
      by (simp add: length_joinComma_Cons)
    finally show ?thesis .
  qed
qed

lemma length_keySignature: "length (keySignature ks) = length (joinComma ks)"
  unfolding keySignature_def
proof (induction ks)
  case Nil
  show ?case by simp
next
  case (Cons k ks)
  have "length (joinComma (sort (k # ks))) = length (joinComma (k # sort ks))"
    by (simp add: length_joinComma_insort)
  also have "\<dots> = length (joinComma (k # ks))"
  proof -
    have "sort ks = [] \<longleftrightarrow> ks = []" by (metis length_0_conv length_sort)
    with Cons.IH show ?thesis by (simp add: length_joinComma_Cons)
  qed
  finally show ?case .
qed

lemma length_joinComma_snoc:
  "length (joinComma (ks @ [k])) = length (joinComma ks) + length k + (if ks = [] then 0 else 1)"
  by (induction ks rule: joinComma.induct) simp_all

lemma keySignature_new_key:
  "k \<noteq> [] \<Longrightarrow> keySignature (ks @ [k]) \<noteq> keySignature ks"
proof
  assume k: "k \<noteq> []" and "keySignature (ks @ [k]) = keySignature ks"
  then have "length (keySignature (ks @ [k])) = length (keySignature ks)" by simp
  then show False using k by (simp add: length_keySignature length_joinComma_snoc)
qed

lemma keySignature_set:
  assumes "distinct xs" "distinct ys" "set xs = set ys"
  shows "keySignature xs = keySignature ys"
proof -
  have "sort xs = sort ys"
    using assms by (intro sorted_distinct_set_unique) simp_all
  then show ?thesis by (simp add: keySignature_def)
qed

lemma arrow_key_cases:
  "ARROW_KEY_MAP key \<noteq> None \<longleftrightarrow> key \<in> {''ArrowUp'', ''ArrowDown'', ''ArrowLeft'', ''ArrowRight''}"
  by (auto simp: ARROW_KEY_MAP_def split: if_splits)

lemma arrow_key_selects:
  "ARROW_KEY_MAP key \<noteq> None \<Longrightarrow> key \<in> S \<Longrightarrow> getCellIndexFromKeys S \<noteq> None"
  unfolding arrow_key_cases by (auto simp: getCellIndexFromKeys_def Let_def)

lemma arrow_key_nonempty: "ARROW_KEY_MAP key \<noteq> None \<Longrightarrow> key \<noteq> []"
  unfolding arrow_key_cases by auto

lemma set_setAdd [simp]: "set (setAdd k ks) = insert k (set ks)"
  by (auto simp: setAdd_def)

lemma handleKeyDown_fires:
  "snd (handleKeyDown key st)
     = (if ARROW_KEY_MAP key \<noteq> None
           \<and> keySignature (setAdd key (pressedKeys st)) \<noteq> keySignature (lastTriggeredKeys st)
        then getCellIndexFromKeys (set (setAdd key (pressedKeys st))) else None)"
  by (auto simp: handleKeyDown_def Let_def split: option.splits)

lemma handleKeyDown_records:
  "snd (handleKeyDown key st) \<noteq> None \<Longrightarrow>
     lastTriggeredKeys (fst (handleKeyDown key st)) = setAdd key (pressedKeys st)
   \<and> pressedKeys (fst (handleKeyDown key st)) = setAdd key (pressedKeys st)"
  by (auto simp: handleKeyDown_def Let_def split: option.splits if_splits)

lemma keys_recorded_handleKeyDown:
  "keys_recorded st \<Longrightarrow> keys_recorded (fst (handleKeyDown key st))"
proof (cases "ARROW_KEY_MAP key = None")
  case True
  assume "keys_recorded st"
  with True show ?thesis by (simp add: handleKeyDown_def)
next
  case False
  then have "getCellIndexFromKeys (set (setAdd key (pressedKeys st))) \<noteq> None"
    by (rule arrow_key_selects) simp
  then obtain c where "getCellIndexFromKeys (set (setAdd key (pressedKeys st))) = Some c" by auto
  with False show ?thesis
    by (auto simp: handleKeyDown_def Let_def keys_recorded_def simp del: set_setAdd)
qed

lemma keys_recorded_handleKeyUp:
  "keys_recorded (handleKeyUp key st)" if "keys_recorded st"
  using that by (simp add: handleKeyUp_def Let_def keys_recorded_def)

lemma fst_runKeys_KeyDown:
  "fst (runKeys (KeyDown k # es) st) = fst (runKeys es (fst (handleKeyDown k st)))"
  by (simp split: prod.splits)

lemma keys_recorded_runKeys:
  "keys_recorded st \<Longrightarrow> keys_recorded (fst (runKeys es st))"
proof (induction es arbitrary: st)
  case Nil
  then show ?case by simp
next
  case (Cons ev es)
  show ?case
  proof (cases ev)
    case (KeyDown k)
    with Cons show ?thesis
      by (simp only: fst_runKeys_KeyDown keys_recorded_handleKeyDown)
  next
    case (KeyUp k)
    with Cons show ?thesis by (simp add: keys_recorded_handleKeyUp)
  qed
qed

lemma keys_recorded_initial: "keys_recorded initialKeys"
  by (simp add: keys_recorded_def initialKeys_def)

lemma fires_on_new_key:
  assumes "keys_recorded st"
  shows "snd (handleKeyDown key st)
     = (if ARROW_KEY_MAP key \<noteq> None \<and> key \<notin> set (pressedKeys st)
        then getCellIndexFromKeys (insert key (set (pressedKeys st))) else None)"
proof (cases "ARROW_KEY_MAP key \<noteq> None \<and> key \<notin> set (pressedKeys st)")
  case True
  then have "keySignature (pressedKeys st @ [key]) \<noteq> keySignature (pressedKeys st)"
    by (intro keySignature_new_key arrow_key_nonempty) simp
  with True assms show ?thesis
    by (simp add: handleKeyDown_fires keys_recorded_def setAdd_def)
next
  case False
  with assms show ?thesis
    by (auto simp: handleKeyDown_fires keys_recorded_def setAdd_def)
qed

subsection \<open>Input resolver: the claims\<close>

lemma handleKeyUp_records:
  assumes "ARROW_KEY_MAP key \<noteq> None"
  shows "(setDelete key (pressedKeys st) = [] \<longrightarrow> lastTriggeredKeys (handleKeyUp key st) = [])
       \<and> (setDelete key (pressedKeys st) \<noteq> [] \<longrightarrow>
            keySignature (lastTriggeredKeys (handleKeyUp key st))
              = keySignature (setDelete key (pressedKeys st)))"
  using assms by (auto simp: handleKeyUp_def Let_def)

theorem press_refires_after_partial_release_counterexample:
  "snd (runKeys [KeyDown ''ArrowUp'', KeyDown ''ArrowLeft''] initialKeys) = [1, 0]
   \<and> snd (handleKeyDown ''ArrowLeft'' (fst (runKeys [KeyDown ''ArrowUp'', KeyDown ''ArrowLeft'', KeyUp ''ArrowLeft''] initialKeys))) = Some 0
   \<and> keySignature (setAdd ''ArrowLeft'' (pressedKeys (fst (runKeys [KeyDown ''ArrowUp'', KeyDown ''ArrowLeft'', KeyUp ''ArrowLeft''] initialKeys))))
       = keySignature (pressedKeys (fst (runKeys [KeyDown ''ArrowUp'', KeyDown ''ArrowLeft''] initialKeys)))
   \<and> snd (runKeys [KeyDown ''ArrowUp'', KeyDown ''ArrowLeft'', KeyUp ''ArrowLeft'', KeyDown ''ArrowLeft''] initialKeys) = [1, 0, 0]"
  by code_simp

text \<open>
  C7 (amended). A key-down fires a press only for an arrow key and only when the
  order-independent signature of the held keys differs from the recorded signature, and the
  fired press records the held keys. The recorded signature is also rewritten by every
  release of an arrow key: cleared when the release empties the held set, set to the
  remaining held keys otherwise. So, from the initial state, a key-down fires exactly when
  it adds an arrow key that was not held: holding Up fires cell 1, adding Left fires cell 0
  once (two presses in all), repeated key-downs of held keys fire nothing, and after
  releasing both, Up fires cell 1 again.
\<close>

theorem press_fires_when_signature_differs_from_recorded:
  "snd (handleKeyDown key st)
     = (if ARROW_KEY_MAP key \<noteq> None
           \<and> keySignature (setAdd key (pressedKeys st)) \<noteq> keySignature (lastTriggeredKeys st)
        then getCellIndexFromKeys (set (setAdd key (pressedKeys st))) else None)
   \<and> (snd (handleKeyDown key st) \<noteq> None \<longrightarrow>
        lastTriggeredKeys (fst (handleKeyDown key st)) = setAdd key (pressedKeys st))
   \<and> (distinct xs \<and> distinct ys \<and> set xs = set ys \<longrightarrow> keySignature xs = keySignature ys)
   \<and> (ARROW_KEY_MAP key \<noteq> None \<longrightarrow>
        (setDelete key (pressedKeys st) = [] \<longrightarrow> lastTriggeredKeys (handleKeyUp key st) = [])
      \<and> (setDelete key (pressedKeys st) \<noteq> [] \<longrightarrow>
           keySignature (lastTriggeredKeys (handleKeyUp key st))
             = keySignature (setDelete key (pressedKeys st))))
   \<and> snd (handleKeyDown key (fst (runKeys es initialKeys)))
       = (if ARROW_KEY_MAP key \<noteq> None \<and> key \<notin> set (pressedKeys (fst (runKeys es initialKeys)))
          then getCellIndexFromKeys (insert key (set (pressedKeys (fst (runKeys es initialKeys)))))
          else None)
   \<and> snd (runKeys [KeyDown ''ArrowUp'', KeyDown ''ArrowLeft''] initialKeys) = [1, 0]
   \<and> snd (runKeys [KeyDown ''ArrowUp'', KeyDown ''ArrowUp'', KeyDown ''ArrowUp'', KeyDown ''ArrowLeft'', KeyDown ''ArrowUp'', KeyDown ''ArrowLeft''] initialKeys) = [1, 0]
   \<and> snd (runKeys [KeyDown ''ArrowUp'', KeyDown ''ArrowLeft'', KeyUp ''ArrowUp'', KeyUp ''ArrowLeft'', KeyDown ''ArrowUp''] initialKeys) = [1, 0, 1]"
proof -
  have a: "snd (handleKeyDown key st)
     = (if ARROW_KEY_MAP key \<noteq> None
           \<and> keySignature (setAdd key (pressedKeys st)) \<noteq> keySignature (lastTriggeredKeys st)
        then getCellIndexFromKeys (set (setAdd key (pressedKeys st))) else None)"
    by (rule handleKeyDown_fires)
  have b: "snd (handleKeyDown key st) \<noteq> None \<longrightarrow>
        lastTriggeredKeys (fst (handleKeyDown key st)) = setAdd key (pressedKeys st)"
    using handleKeyDown_records[of key st] by blast
  have c: "distinct xs \<and> distinct ys \<and> set xs = set ys \<longrightarrow> keySignature xs = keySignature ys"
    using keySignature_set[of xs ys] by blast
  have d: "ARROW_KEY_MAP key \<noteq> None \<longrightarrow>
        (setDelete key (pressedKeys st) = [] \<longrightarrow> lastTriggeredKeys (handleKeyUp key st) = [])
      \<and> (setDelete key (pressedKeys st) \<noteq> [] \<longrightarrow>
           keySignature (lastTriggeredKeys (handleKeyUp key st))
             = keySignature (setDelete key (pressedKeys st)))"
    using handleKeyUp_records[of key st] by blast
  have e: "snd (handleKeyDown key (fst (runKeys es initialKeys)))
       = (if ARROW_KEY_MAP key \<noteq> None \<and> key \<notin> set (pressedKeys (fst (runKeys es initialKeys)))
          then getCellIndexFromKeys (insert key (set (pressedKeys (fst (runKeys es initialKeys)))))
          else None)"
    by (rule fires_on_new_key) (rule keys_recorded_runKeys[OF keys_recorded_initial])
  have f: "snd (runKeys [KeyDown ''ArrowUp'', KeyDown ''ArrowLeft''] initialKeys) = [1, 0]" by code_simp
  have g: "snd (runKeys [KeyDown ''ArrowUp'', KeyDown ''ArrowUp'', KeyDown ''ArrowUp'', KeyDown ''ArrowLeft'', KeyDown ''ArrowUp'', KeyDown ''ArrowLeft''] initialKeys) = [1, 0]"
    by code_simp
  have h: "snd (runKeys [KeyDown ''ArrowUp'', KeyDown ''ArrowLeft'', KeyUp ''ArrowUp'', KeyUp ''ArrowLeft'', KeyDown ''ArrowUp''] initialKeys) = [1, 0, 1]"
    by code_simp
  from a b c d e f g h show ?thesis by (intro conjI)
qed

theorem press_fires_when_signature_differs_from_recorded_witness:
  "keySignature [''ArrowUp'', ''ArrowLeft''] = keySignature [''ArrowLeft'', ''ArrowUp'']
   \<and> snd (handleKeyDown ''ArrowLeft'' (fst (runKeys [KeyDown ''ArrowUp''] initialKeys))) = Some 0
   \<and> snd (handleKeyDown ''ArrowUp'' (fst (runKeys [KeyDown ''ArrowUp'', KeyDown ''ArrowLeft''] initialKeys))) = None
   \<and> lastTriggeredKeys (handleKeyUp ''ArrowUp'' (fst (runKeys [KeyDown ''ArrowUp''] initialKeys))) = []
   \<and> keySignature (lastTriggeredKeys (handleKeyUp ''ArrowLeft'' (fst (runKeys [KeyDown ''ArrowUp'', KeyDown ''ArrowLeft''] initialKeys)))) = ''ArrowUp''"
proof -
  note th = press_fires_when_signature_differs_from_recorded
  have d: "distinct [''ArrowUp'', ''ArrowLeft''] \<and> distinct [''ArrowLeft'', ''ArrowUp''] \<and> set [''ArrowUp'', ''ArrowLeft''] = set [''ArrowLeft'', ''ArrowUp'']" by auto
  from th[where xs = "[''ArrowUp'', ''ArrowLeft'']" and ys = "[''ArrowLeft'', ''ArrowUp'']", THEN conjunct2, THEN conjunct2, THEN conjunct1] d
  have 1: "keySignature [''ArrowUp'', ''ArrowLeft''] = keySignature [''ArrowLeft'', ''ArrowUp'']" by (rule mp)
  have p1: "pressedKeys (fst (runKeys [KeyDown ''ArrowUp''] initialKeys)) = [''ArrowUp'']" by code_simp
  have p2: "pressedKeys (fst (runKeys [KeyDown ''ArrowUp'', KeyDown ''ArrowLeft''] initialKeys)) = [''ArrowUp'', ''ArrowLeft'']" by code_simp
  have k: "ARROW_KEY_MAP ''ArrowUp'' \<noteq> None" "ARROW_KEY_MAP ''ArrowLeft'' \<noteq> None" by (simp_all add: ARROW_KEY_MAP_def)
  have 2: "snd (handleKeyDown ''ArrowLeft'' (fst (runKeys [KeyDown ''ArrowUp''] initialKeys))) = Some 0"
    using th[where key = "''ArrowLeft''" and es = "[KeyDown ''ArrowUp'']",
        THEN conjunct2, THEN conjunct2, THEN conjunct2, THEN conjunct2, THEN conjunct1] k
    by (simp add: p1 getCellIndexFromKeys_def del: runKeys.simps)
  have 3: "snd (handleKeyDown ''ArrowUp'' (fst (runKeys [KeyDown ''ArrowUp'', KeyDown ''ArrowLeft''] initialKeys))) = None"
    using th[where key = "''ArrowUp''" and es = "[KeyDown ''ArrowUp'', KeyDown ''ArrowLeft'']",
        THEN conjunct2, THEN conjunct2, THEN conjunct2, THEN conjunct2, THEN conjunct1]
    by (simp add: p2 del: runKeys.simps)
  have 4: "lastTriggeredKeys (handleKeyUp ''ArrowUp'' (fst (runKeys [KeyDown ''ArrowUp''] initialKeys))) = []"
    using th[where key = "''ArrowUp''" and st = "fst (runKeys [KeyDown ''ArrowUp''] initialKeys)",
        THEN conjunct2, THEN conjunct2, THEN conjunct2, THEN conjunct1] k
    by (simp add: p1 setDelete_def del: runKeys.simps)
  have s: "keySignature [''ArrowUp''] = ''ArrowUp''" by (simp add: keySignature_def)
  have 5: "keySignature (lastTriggeredKeys (handleKeyUp ''ArrowLeft'' (fst (runKeys [KeyDown ''ArrowUp'', KeyDown ''ArrowLeft''] initialKeys)))) = ''ArrowUp''"
    using th[where key = "''ArrowLeft''" and st = "fst (runKeys [KeyDown ''ArrowUp'', KeyDown ''ArrowLeft''] initialKeys)",
        THEN conjunct2, THEN conjunct2, THEN conjunct2, THEN conjunct1] k
    by (simp add: p2 setDelete_def s del: runKeys.simps)
  from 1 2 3 4 5 show ?thesis by (intro conjI)
qed

end
